theory Spec2Isabelle
  imports Complex_Main
begin

section \<open>EmbeddingGenerator: the remote call with its retry loop\<close>

text \<open>
  The remote inference API is the environment of \<open>_make_api_request\<close>. One call of
  \<open>requests.post\<close> either raises a network-level \<open>RequestException\<close> or returns a
  response with a status code and a body. The body is kept as the value \<open>response.json()\<close>
  would return, a list of embeddings (the API's contract: a JSON array index-aligned with
  the inputs).
\<close>

datatype 'e response = NetworkFailure | Response nat "'e list"

text \<open>The environment answers the \<open>n\<close>-th HTTP request of a run, given the texts posted.\<close>

type_synonym 'e api = "nat \<Rightarrow> string list \<Rightarrow> 'e response"

text \<open>
  Exceptions of the pipeline. \<open>ConnectionError\<close> and \<open>HTTPError\<close> are both subclasses of
  \<open>RequestException\<close>; \<open>TypeError\<close> is what \<open>list.extend(None)\<close> raises; \<open>ValueError\<close> is
  what \<open>range\<close> raises for a zero step; \<open>OperationalError\<close> is what the database driver
  raises, as on a lost connection.
\<close>

datatype error = ConnectionError | HTTPError nat | TypeError | ValueError | OperationalError

record ('e, 'm) checkpoint =
  batch_index :: nat
  embeddings :: "'e list"
  metadata :: "'m list"

text \<open>Every effect of the generator, in the order it happens.\<close>

datatype ('e, 'm) event =
    Post "string list"
  | Sleep nat
  | SaveCheckpoint "('e, 'm) checkpoint"

record ('e, 'm) world =
  calls :: nat
  trace :: "('e, 'm) event list"
  checkpoint_file :: "('e, 'm) checkpoint option"

definition post :: "string list \<Rightarrow> ('e, 'm) world \<Rightarrow> ('e, 'm) world" where
  "post texts w = w\<lparr>calls := Suc (calls w), trace := trace w @ [Post texts]\<rparr>"

definition sleep :: "nat \<Rightarrow> ('e, 'm) world \<Rightarrow> ('e, 'm) world" where
  "sleep secs w = w\<lparr>trace := trace w @ [Sleep secs]\<rparr>"

text \<open>
  \<open>for attempt in range(max_retries)\<close>: the loop runs over the list of the attempts that
  are left. The statuses 503, 429 and 500 sleep and \<open>continue\<close>, which moves on to the next
  attempt. \<open>raise_for_status\<close> raises \<open>HTTPError\<close> for a status from 400 to 599; it is
  called inside the \<open>try\<close>, and \<open>HTTPError\<close> is a \<open>RequestException\<close>, so the handler
  catches it like a network failure: re-raised on the last attempt, slept on and retried
  otherwise. Falling out of the loop returns \<open>None\<close>.
\<close>

fun attempts_loop ::
  "'e api \<Rightarrow> string list \<Rightarrow> nat \<Rightarrow> nat list \<Rightarrow> ('e, 'm) world
    \<Rightarrow> (error + 'e list option) \<times> ('e, 'm) world" where
  "attempts_loop api texts max_retries [] w = (Inr None, w)"
| "attempts_loop api texts max_retries (attempt # rest) w =
     (let w1 = post texts w in
      case api (calls w) texts of
        NetworkFailure \<Rightarrow>
          if attempt = max_retries - 1 then (Inl ConnectionError, w1)
          else attempts_loop api texts max_retries rest (sleep (10 * (attempt + 1)) w1)
      | Response status body \<Rightarrow>
          if status = 503 then attempts_loop api texts max_retries rest (sleep 20 w1)
          else if status = 429 then attempts_loop api texts max_retries rest (sleep 30 w1)
          else if status = 500 then
            attempts_loop api texts max_retries rest (sleep (30 * (attempt + 1)) w1)
          else if 400 \<le> status \<and> status < 600 then
            (if attempt = max_retries - 1 then (Inl (HTTPError status), w1)
             else attempts_loop api texts max_retries rest (sleep (10 * (attempt + 1)) w1))
          else (Inr (Some body), w1))"

definition make_api_request ::
  "'e api \<Rightarrow> string list \<Rightarrow> nat \<Rightarrow> ('e, 'm) world
    \<Rightarrow> (error + 'e list option) \<times> ('e, 'm) world" where
  "make_api_request api texts max_retries w =
     attempts_loop api texts max_retries [0..<max_retries] w"

section \<open>EmbeddingGenerator: checkpoints and the batch loop\<close>

text \<open>\<open>_save_checkpoint\<close> overwrites the one checkpoint file (the write is taken to succeed).\<close>

definition save_checkpoint ::
  "nat \<Rightarrow> 'e list \<Rightarrow> 'm list \<Rightarrow> ('e, 'm) world \<Rightarrow> ('e, 'm) world" where
  "save_checkpoint idx embs metas w =
     (let c = \<lparr>batch_index = idx, embeddings = embs, metadata = metas\<rparr>
      in w\<lparr>trace := trace w @ [SaveCheckpoint c], checkpoint_file := Some c\<rparr>)"

definition load_checkpoint :: "('e, 'm) world \<Rightarrow> nat \<times> 'e list \<times> 'm list" where
  "load_checkpoint w =
     (case checkpoint_file w of
        Some c \<Rightarrow> (batch_index c, embeddings c, metadata c)
      | None \<Rightarrow> (0, [], []))"

text \<open>\<open>range(start, stop, step)\<close> for a positive step, and the slice \<open>xs[i:i + n]\<close>.\<close>

definition py_range :: "nat \<Rightarrow> nat \<Rightarrow> nat \<Rightarrow> nat list" where
  "py_range start stop step =
     map (\<lambda>k. start + k * step) [0..<(stop - start + step - 1) div step]"

definition slice :: "'a list \<Rightarrow> nat \<Rightarrow> nat \<Rightarrow> 'a list" where
  "slice xs i n = take n (drop i xs)"

text \<open>
  The body of the batch loop, for the offset \<open>i\<close>. Any exception of the \<open>try\<close> block saves
  a checkpoint with the lists as they are and is re-raised. When \<open>_make_api_request\<close>
  returns \<open>None\<close>, \<open>all_embeddings.extend(None)\<close> raises \<open>TypeError\<close> before either list has
  grown.
\<close>

definition process_batch ::
  "'e api \<Rightarrow> string list \<Rightarrow> 'm list \<Rightarrow> nat \<Rightarrow> nat \<Rightarrow> 'e list \<times> 'm list \<Rightarrow> ('e, 'm) world
    \<Rightarrow> (error + 'e list \<times> 'm list) \<times> ('e, 'm) world" where
  "process_batch api texts metas batch_size i acc w =
     (let all_embeddings = fst acc;
          processed_metadata = snd acc;
          batch_texts = slice texts i batch_size;
          batch_metadata = slice metas i batch_size
      in case make_api_request api batch_texts 5 w of
           (Inl e, w1) \<Rightarrow>
             (Inl e, save_checkpoint (i div batch_size) all_embeddings processed_metadata w1)
         | (Inr None, w1) \<Rightarrow>
             (Inl TypeError,
              save_checkpoint (i div batch_size) all_embeddings processed_metadata w1)
         | (Inr (Some batch_embeddings), w1) \<Rightarrow>
             (let all_embeddings' = all_embeddings @ batch_embeddings;
                  processed_metadata' = processed_metadata @ batch_metadata;
                  w2 = (if (i div batch_size) mod 5 = 0
                        then save_checkpoint (i div batch_size)
                               all_embeddings' processed_metadata' w1
                        else w1)
              in (Inr (all_embeddings', processed_metadata'), sleep 1 w2)))"

fun batch_loop ::
  "'e api \<Rightarrow> string list \<Rightarrow> 'm list \<Rightarrow> nat \<Rightarrow> nat list \<Rightarrow> 'e list \<times> 'm list \<Rightarrow> ('e, 'm) world
    \<Rightarrow> (error + 'e list \<times> 'm list) \<times> ('e, 'm) world" where
  "batch_loop api texts metas batch_size [] acc w = (Inr acc, w)"
| "batch_loop api texts metas batch_size (i # is) acc w =
     (case process_batch api texts metas batch_size i acc w of
        (Inl e, w1) \<Rightarrow> (Inl e, w1)
      | (Inr acc1, w1) \<Rightarrow> batch_loop api texts metas batch_size is acc1 w1)"

text \<open>
  \<open>generate_embeddings\<close>: load the checkpoint, then run the loop over
  \<open>range(start_batch * batch_size, len(texts), batch_size)\<close>. A zero step makes \<open>range\<close>
  raise \<open>ValueError\<close>, outside the \<open>try\<close>. The returned array is kept as the list it is
  built from.
\<close>

definition generate_embeddings ::
  "'e api \<Rightarrow> string list \<Rightarrow> 'm list \<Rightarrow> nat \<Rightarrow> ('e, 'm) world
    \<Rightarrow> (error + 'e list \<times> 'm list) \<times> ('e, 'm) world" where
  "generate_embeddings api texts metas batch_size w =
     (case load_checkpoint w of
        (start_batch, all_embeddings, processed_metadata) \<Rightarrow>
          if batch_size = 0 then (Inl ValueError, w)
          else batch_loop api texts metas batch_size
                 (py_range (start_batch * batch_size) (length texts) batch_size)
                 (all_embeddings, processed_metadata) w)"

text \<open>The texts of the requests recorded in a trace, in order.\<close>

fun posted :: "('e, 'm) event list \<Rightarrow> string list list" where
  "posted [] = []"
| "posted (Post ts # evs) = ts # posted evs"
| "posted (ev # evs) = posted evs"

section \<open>Vocabulary for the properties of the generator\<close>

text \<open>
  The API is index-aligned when every response carries one embedding per posted text.
\<close>

definition index_aligned :: "'e api \<Rightarrow> bool" where
  "index_aligned api = (\<forall>n ts s body. api n ts = Response s body \<longrightarrow> length body = length ts)"

text \<open>The requests and the effects that a run adds to the trace it started with.\<close>

definition new_requests :: "('e, 'm) world \<Rightarrow> ('e, 'm) world \<Rightarrow> string list list" where
  "new_requests w w' = drop (length (posted (trace w))) (posted (trace w'))"

definition new_events :: "('e, 'm) world \<Rightarrow> ('e, 'm) world \<Rightarrow> ('e, 'm) event list" where
  "new_events w w' = drop (length (trace w)) (trace w')"

text \<open>
  What a run received, read off its requests and the environment alone: the request
  number \<open>n\<close> is answered by \<open>api n\<close>, and an answer whose status is not an HTTP error (400 to
  599) carries the embeddings of a batch. \<open>received\<close> lists these bodies in order.
\<close>

fun good_bodies :: "'e api \<Rightarrow> nat \<Rightarrow> string list list \<Rightarrow> 'e list list" where
  "good_bodies api n [] = []"
| "good_bodies api n (ts # rest) =
     (case api n ts of
        NetworkFailure \<Rightarrow> []
      | Response s b \<Rightarrow> if 400 \<le> s \<and> s < 600 then [] else [b])
     @ good_bodies api (Suc n) rest"

definition received :: "'e api \<Rightarrow> ('e, 'm) world \<Rightarrow> ('e, 'm) world \<Rightarrow> 'e list list" where
  "received api w w' = good_bodies api (calls w) (new_requests w w')"

text \<open>An API that answers its first request with two embeddings and then is unreachable.\<close>

definition flaky_api :: "nat api" where
  "flaky_api n ts = (if n = 0 then Response 200 [1, 2] else NetworkFailure)"

text \<open>
  Concrete environments and worlds: an API that answers every request with 200 and, as
  the embedding of a text, its length; one that always answers 503; one that answers 404
  once and 200 from then on; a checkpoint of batch index 2 with 64 embeddings, as left by
  an earlier run; a world with no checkpoint.
\<close>

definition echo_api :: "nat api" where
  "echo_api n ts = Response 200 (map length ts)"

definition busy_api :: "nat api" where
  "busy_api n ts = Response 503 []"

definition not_found_once_api :: "nat api" where
  "not_found_once_api n ts = (if n = 0 then Response 404 [] else Response 200 [7])"

definition stale_world :: "(nat, nat) world" where
  "stale_world =
     \<lparr>calls = 0, trace = [],
      checkpoint_file =
        Some \<lparr>batch_index = 2, embeddings = replicate 64 0, metadata = replicate 64 0\<rparr>\<rparr>"

definition fresh_world :: "(nat, nat) world" where
  "fresh_world = \<lparr>calls = 0, trace = [], checkpoint_file = None\<rparr>"

section \<open>DataProcessor\<close>

text \<open>
  A cell of the table that \<open>read_csv\<close> returns is a text or the missing value, which pandas
  represents by the float NaN (an empty field of the file is read as NaN). A cell that
  pandas reads as a number is kept as the text that formatting it gives. A row is a
  mapping from column names to cells.
\<close>

datatype cell = CellStr string | CellNaN

type_synonym row = "string \<rightharpoonup> cell"

text \<open>\<open>row.get(column, '')\<close>: the default is used only when the column is absent.\<close>

definition row_get :: "row \<Rightarrow> string \<Rightarrow> cell" where
  "row_get r column = (case r column of None \<Rightarrow> CellStr [] | Some c \<Rightarrow> c)"

text \<open>The text that an f-string puts for a cell: \<open>str(float('nan'))\<close> is \<open>nan\<close>.\<close>

fun render :: "cell \<Rightarrow> string" where
  "render (CellStr s) = s"
| "render CellNaN = ''nan''"

definition recipe_text :: "row \<Rightarrow> string" where
  "recipe_text r =
     ''Recipe: '' @ render (row_get r ''RecipeName'') @ ''. ''
     @ ''Ingredients: '' @ render (row_get r ''Ingredients'') @ ''. ''
     @ ''TimeToCook: '' @ render (row_get r ''TimeToCook'') @ ''. ''
     @ ''Instructions: '' @ render (row_get r ''Instructions'')"

datatype data_error = DataError

text \<open>
  \<open>get_processed_data\<close>, given what \<open>read_csv\<close> returned: its exception is logged and
  re-raised; otherwise one text per row, and the rows themselves as metadata.
\<close>

definition get_processed_data :: "data_error + row list \<Rightarrow> data_error + string list \<times> row list" where
  "get_processed_data csv =
     (case csv of
        Inl e \<Rightarrow> Inl e
      | Inr df \<Rightarrow> Inr (map recipe_text df, df))"

section \<open>CookingAssistant\<close>

text \<open>
  The generative-text API is the environment of \<open>process_message\<close>: given the API key read
  from the environment (if any) and the prompt, the import, \<open>configure\<close>,
  \<open>generate_content\<close> and the reading of \<open>response.text\<close> either raise an exception or
  yield a response, which has a text or has none.
\<close>

datatype api_exception = ApiException string

datatype gen_response = NoText | Text string

type_synonym gemini = "string option \<Rightarrow> string \<Rightarrow> api_exception + gen_response"

definition instruction :: string where
  "instruction = '' You are a helpful recipe recommender assistant. Answer only if the question is relevant to the recipe recommendations, food based, time to cook, where the dish is most famous etc. all and only about food. If the question is not relevant to food, say 'I'm sorry, I can only help with recipe recommendations.'. Give answers in the format: Recipe name, Time to cook, Ingredients, Instructions. Give no extra information unless asked for.''"

definition fallback_empty :: string where
  "fallback_empty = ''I apologize, but I couldn't generate a response for your query. Please try again.''"

definition fallback_error :: string where
  "fallback_error = ''I apologize, but I encountered an error while trying to generate a response. Please ensure your GEMINI_API_KEY is correct and try again.''"

text \<open>The \<open>try\<close> block: an exception of the API leaves it; an empty text is falsy.\<close>

definition try_generate :: "gemini \<Rightarrow> string option \<Rightarrow> string \<Rightarrow> api_exception + string" where
  "try_generate api api_key message =
     (case api api_key (message @ instruction) of
        Inl e \<Rightarrow> Inl e
      | Inr NoText \<Rightarrow> Inr fallback_empty
      | Inr (Text t) \<Rightarrow> if t \<noteq> [] then Inr t else Inr fallback_empty)"

text \<open>\<open>except Exception\<close>: the error is logged and the second fallback is returned.\<close>

definition process_message :: "gemini \<Rightarrow> string option \<Rightarrow> string \<Rightarrow> api_exception + string" where
  "process_message api api_key message =
     (case try_generate api api_key message of
        Inl e \<Rightarrow> Inr fallback_error
      | Inr s \<Rightarrow> Inr s)"


definition soup_row :: row where
  "soup_row =
     [''RecipeName'' \<mapsto> CellStr ''Soup'', ''Ingredients'' \<mapsto> CellStr ''water'',
      ''TimeToCook'' \<mapsto> CellNaN, ''Instructions'' \<mapsto> CellStr ''Boil'']"

definition keyless_gemini :: gemini where
  "keyless_gemini api_key prompt =
     (case api_key of
        None \<Rightarrow> Inl (ApiException ''no API key'')
      | Some k \<Rightarrow> Inr (Text ''Pancakes, 20 minutes''))"

section \<open>VectorDB: inserting recipes\<close>

text \<open>
  A Python float is a real number or NaN. A recipe is the dictionary that
  \<open>process_recipes\<close> builds; a field is \<open>None\<close> when its key is absent. Its embedding is a
  list of floats.
\<close>

datatype pyfloat = Float real | FloatNaN

record recipe =
  rid :: "int option"
  RecipeName :: "string option"
  TimeToCook :: "string option"
  Ingredients :: "string option"
  Instructions :: "string option"
  embedding :: "pyfloat list option"

text \<open>
  A row of the table \<open>recipes\<close>, with the columns that \<open>create_tables\<close> declares. The
  vector column is kept as the list that the JSON string sent for it encodes.
\<close>

record db_row =
  col_id :: "int option"
  col_RecipeName :: "string option"
  col_TimeToCook :: "string option"
  col_Ingredients :: "string option"
  col_Instructions :: "string option"
  col_embedding :: "pyfloat list"

text \<open>
  The list comprehension over the embedding, \<open>0.0 if isinstance(x, float) and math.isnan(x)
  else x\<close>, and the tuple of values prepared for one recipe (\<open>recipe.get('embedding', [])\<close>
  is the empty list when the key is absent).
\<close>

definition sanitize :: "pyfloat list \<Rightarrow> pyfloat list" where
  "sanitize emb = map (\<lambda>x. if x = FloatNaN then Float 0 else x) emb"

definition prepare :: "recipe \<Rightarrow> db_row" where
  "prepare r =
     \<lparr>col_id = rid r,
      col_RecipeName = RecipeName r,
      col_TimeToCook = TimeToCook r,
      col_Ingredients = Ingredients r,
      col_Instructions = Instructions r,
      col_embedding = sanitize (case embedding r of None \<Rightarrow> [] | Some e \<Rightarrow> e)\<rparr>"

text \<open>
  The store is the environment of \<open>insert_recipes\<close>. For the \<open>n\<close>-th \<open>executemany\<close> of a
  run it answers, from the committed table and the rows sent, with one of three outcomes:
  \<open>executemany\<close> and \<open>commit\<close> succeed; one of them raises and the \<open>rollback\<close> of the
  handler succeeds; one of them raises and the \<open>rollback\<close> raises too, as both do on a lost
  connection.
\<close>

datatype outcome = InsertCommitted | InsertRolledBack | RollbackRaises

type_synonym store = "nat \<Rightarrow> db_row list \<Rightarrow> db_row list \<Rightarrow> outcome"

datatype db_event = ExecuteMany "db_row list" | Commit | Rollback | RollbackError

record db =
  table :: "db_row list"
  db_calls :: nat
  db_trace :: "db_event list"

text \<open>
  One batch: the rows are prepared (no preparation fails for these types) and an empty
  batch is skipped. The insert either commits all rows of the batch or raises. The handler
  logs the exception and calls \<open>rollback\<close>; that call is not guarded, so an exception of
  \<open>rollback\<close> leaves \<open>insert_recipes\<close>. The result is the exception that escapes, if any,
  and the state of the store.
\<close>

definition insert_batch :: "store \<Rightarrow> recipe list \<Rightarrow> db \<Rightarrow> error option \<times> db" where
  "insert_batch st batch w =
     (let batch_data = map prepare batch in
      if batch_data = [] then (None, w)
      else case st (db_calls w) (table w) batch_data of
        InsertCommitted \<Rightarrow>
          (None, w\<lparr>table := table w @ batch_data,
                    db_calls := Suc (db_calls w),
                    db_trace := db_trace w @ [ExecuteMany batch_data, Commit]\<rparr>)
      | InsertRolledBack \<Rightarrow>
          (None, w\<lparr>db_calls := Suc (db_calls w),
                    db_trace := db_trace w @ [ExecuteMany batch_data, Rollback]\<rparr>)
      | RollbackRaises \<Rightarrow>
          (Some OperationalError,
           w\<lparr>db_calls := Suc (db_calls w),
              db_trace := db_trace w @ [ExecuteMany batch_data, RollbackError]\<rparr>))"

fun insert_loop ::
  "store \<Rightarrow> recipe list \<Rightarrow> nat \<Rightarrow> nat list \<Rightarrow> db \<Rightarrow> error option \<times> db" where
  "insert_loop st recipes batch_size [] w = (None, w)"
| "insert_loop st recipes batch_size (i # is) w =
     (case insert_batch st (slice recipes i batch_size) w of
        (Some e, w1) \<Rightarrow> (Some e, w1)
      | (None, w1) \<Rightarrow> insert_loop st recipes batch_size is w1)"

text \<open>
  \<open>insert_recipes\<close>: the loop over \<open>range(0, len(recipes), batch_size)\<close>; a zero batch size
  makes \<open>range\<close> raise \<open>ValueError\<close>.
\<close>

definition insert_recipes :: "store \<Rightarrow> recipe list \<Rightarrow> nat \<Rightarrow> db \<Rightarrow> error option \<times> db" where
  "insert_recipes st recipes batch_size w =
     (if batch_size = 0 then (Some ValueError, w)
      else insert_loop st recipes batch_size (py_range 0 (length recipes) batch_size) w)"

text \<open>The batches of rows sent by the \<open>executemany\<close> calls recorded in a trace.\<close>

fun executed :: "db_event list \<Rightarrow> db_row list list" where
  "executed [] = []"
| "executed (ExecuteMany rows # evs) = rows # executed evs"
| "executed (ev # evs) = executed evs"

definition new_db_events :: "db \<Rightarrow> db \<Rightarrow> db_event list" where
  "new_db_events w w' = drop (length (db_trace w)) (db_trace w')"

text \<open>The prepared batches of a list of recipes, in the order of the loop.\<close>

definition prepared_batches :: "recipe list \<Rightarrow> nat \<Rightarrow> db_row list list" where
  "prepared_batches recipes batch_size =
     map (\<lambda>i. map prepare (slice recipes i batch_size))
       (py_range 0 (length recipes) batch_size)"

text \<open>
  A store enforces the column type \<open>embedding VECTOR(768)\<close> that \<open>create_tables\<close> declares
  when an insert that it commits has only rows with 768 elements.
\<close>

definition enforces_vector_768 :: "store \<Rightarrow> bool" where
  "enforces_vector_768 st =
     (\<forall>n tbl rows. st n tbl rows = InsertCommitted \<longrightarrow>
        (\<forall>r \<in> set rows. length (col_embedding r) = 768))"

text \<open>
  What the effects of a run are when the \<open>n\<close>-th insert is committed if \<open>ok n\<close> and rolled
  back otherwise: the events, and the rows that stay in the table.
\<close>

fun outcome_events :: "(nat \<Rightarrow> bool) \<Rightarrow> nat \<Rightarrow> db_row list list \<Rightarrow> db_event list" where
  "outcome_events ok n [] = []"
| "outcome_events ok n (b # bs) =
     [ExecuteMany b, if ok n then Commit else Rollback] @ outcome_events ok (Suc n) bs"

fun surviving :: "(nat \<Rightarrow> bool) \<Rightarrow> nat \<Rightarrow> db_row list list \<Rightarrow> db_row list" where
  "surviving ok n [] = []"
| "surviving ok n (b # bs) = (if ok n then b else []) @ surviving ok (Suc n) bs"

text \<open>
  Concrete inputs: a recipe; an empty table; a store that checks only the vector length;
  one that commits whatever it is sent; one whose second insert is rolled back; and one
  that loses its connection during the first insert, so that the insert and the rollback
  both raise, and that would commit every later insert.
\<close>

definition plain_recipe :: "int \<Rightarrow> pyfloat list \<Rightarrow> recipe" where
  "plain_recipe i emb =
     \<lparr>rid = Some i, RecipeName = Some ''Soup'', TimeToCook = Some ''10 mins'',
      Ingredients = Some ''water, salt'', Instructions = Some ''Boil'', embedding = Some emb\<rparr>"

definition empty_db :: db where
  "empty_db = \<lparr>table = [], db_calls = 0, db_trace = []\<rparr>"



definition second_fails :: store where
  "second_fails n tbl rows = (if n = 1 then InsertRolledBack else InsertCommitted)"

definition connection_lost :: store where
  "connection_lost n tbl rows = (if n = 0 then RollbackRaises else InsertCommitted)"

section \<open>VectorDB: searching by ingredients\<close>

text \<open>
  Strings are taken to be ASCII. \<open>str.isspace\<close>, \<open>str.strip\<close>, \<open>str.lower\<close> and
  \<open>str.split(',')\<close> on such strings.
\<close>

definition py_isspace :: "char \<Rightarrow> bool" where
  "py_isspace c =
     (c \<in> {CHR 0x09, CHR 0x0A, CHR 0x0B, CHR 0x0C, CHR 0x0D,
            CHR 0x1C, CHR 0x1D, CHR 0x1E, CHR 0x1F, CHR 0x20})"

definition strip :: "string \<Rightarrow> string" where
  "strip s = rev (dropWhile py_isspace (rev (dropWhile py_isspace s)))"

definition lower_char :: "char \<Rightarrow> char" where
  "lower_char c =
     (case map_of (zip ''ABCDEFGHIJKLMNOPQRSTUVWXYZ'' ''abcdefghijklmnopqrstuvwxyz'') c of
        Some l \<Rightarrow> l
      | None \<Rightarrow> c)"

definition lower :: "string \<Rightarrow> string" where
  "lower s = map lower_char s"

fun split_on :: "char \<Rightarrow> string \<Rightarrow> string list" where
  "split_on sep [] = [[]]"
| "split_on sep (c # cs) =
     (if c = sep then [] # split_on sep cs
      else (case split_on sep cs of
              [] \<Rightarrow> [[c]]
            | p # ps \<Rightarrow> (c # p) # ps))"

text \<open>\<open>[i.strip().lower() for i in search_term.split(',') if i.strip()]\<close>\<close>

definition parse_terms :: "string \<Rightarrow> string list" where
  "parse_terms search_term =
     map (\<lambda>i. lower (strip i)) (filter (\<lambda>i. strip i \<noteq> []) (split_on CHR '','' search_term))"

text \<open>
  The SQL operator \<open>LIKE\<close>, pattern first: \<open>%\<close> matches any sequence of characters, \<open>_\<close>
  any one character, and a backslash makes the character after it literal.
\<close>

fun like :: "string \<Rightarrow> string \<Rightarrow> bool" where
  "like [] s = (s = [])"
| "like (p # ps) [] = (p = CHR ''%'' \<and> like ps [])"
| "like (p # ps) (c # cs) =
     (if p = CHR ''%'' then like ps (c # cs) \<or> like (p # ps) cs
      else if p = CHR ''_'' then like ps cs
      else if p = CHR 0x5C then
        (case ps of
           [] \<Rightarrow> c = p \<and> like [] cs
         | q # qs \<Rightarrow> c = q \<and> like qs cs)
      else c = p \<and> like ps cs)"

text \<open>
  The \<open>WHERE\<close> clause for one row: \<open>LOWER(Ingredients) LIKE %s\<close> for the parameter
  \<open>'%' + term + '%'\<close>, joined by \<open>OR\<close> over the terms. A \<open>NULL\<close> field matches nothing.
\<close>

definition row_matches :: "string list \<Rightarrow> db_row \<Rightarrow> bool" where
  "row_matches terms r =
     (case col_Ingredients r of
        None \<Rightarrow> False
      | Some ing \<Rightarrow> list_ex (\<lambda>t. like (''%'' @ t @ ''%'') (lower ing)) terms)"

record search_result =
  res_RecipeName :: "string option"
  res_TimeToCook :: "string option"
  res_Ingredients :: "string option"
  res_Instructions :: "string option"
  similarity :: real

definition to_result :: "db_row \<Rightarrow> search_result" where
  "to_result r =
     \<lparr>res_RecipeName = col_RecipeName r,
      res_TimeToCook = col_TimeToCook r,
      res_Ingredients = col_Ingredients r,
      res_Instructions = col_Instructions r,
      similarity = 1\<rparr>"

datatype db_error = DatabaseError

text \<open>
  \<open>find_similar_recipes\<close> on a table: the count check, the parsing of the terms, the query
  and the conversion of the rows. The store returns the first \<open>limit\<close> matching rows in
  table order, and refuses a negative \<open>LIMIT\<close>; its error is logged and re-raised.
\<close>

definition find_similar_recipes ::
  "db_row list \<Rightarrow> string \<Rightarrow> int \<Rightarrow> db_error + search_result list" where
  "find_similar_recipes tbl search_term limit =
     (if length tbl = 0 then Inr []
      else let ingredients = parse_terms search_term in
        if ingredients = [] then Inr []
        else if limit < 0 then Inl DatabaseError
        else let results = take (nat limit) (filter (row_matches ingredients) tbl) in
          if results = [] then Inr []
          else Inr (map to_result results))"

text \<open>Whether a text contains a term as a substring.\<close>

fun starts_with :: "string \<Rightarrow> string \<Rightarrow> bool" where
  "starts_with [] s = True"
| "starts_with (p # ps) [] = False"
| "starts_with (p # ps) (c # cs) = (p = c \<and> starts_with ps cs)"

fun contains :: "string \<Rightarrow> string \<Rightarrow> bool" where
  "contains [] t = (t = [])"
| "contains (c # cs) t = (starts_with t (c # cs) \<or> contains cs t)"

section \<open>Properties of the retry loop\<close>

lemma posted_append: "posted (xs @ ys) = posted xs @ posted ys"
  by (induction xs rule: posted.induct) auto

lemma calls_sleep_post: "calls (sleep d (post texts w)) = Suc (calls w)"
  by (simp add: sleep_def post_def)

lemma attempts_loop_all_retry:
  "(\<forall>k < length as. \<exists>b s. api (calls w + k) texts = Response s b \<and> s \<in> {503, 429, 500})
   \<Longrightarrow> fst (attempts_loop api texts mr as w) = Inr None
     \<and> calls (snd (attempts_loop api texts mr as w)) = calls w + length as"
proof (induction as arbitrary: w)
  case Nil
  then show ?case by simp
next
  case (Cons a as)
  from Cons.prems have "\<exists>b s. api (calls w + 0) texts = Response s b \<and> s \<in> {503, 429, 500}"
    by (metis length_greater_0_conv list.distinct(1))
  then obtain b s where r: "api (calls w) texts = Response s b" and s: "s \<in> {503, 429, 500}"
    by auto
  have hk: "\<forall>k < length as. \<exists>b s. api (calls (sleep d (post texts w)) + k) texts = Response s b
      \<and> s \<in> {503, 429, 500}" for d
  proof (intro allI impI)
    fix k assume "k < length as"
    then have "Suc k < length (a # as)" by simp
    with Cons.prems
    have "\<exists>b s. api (calls w + Suc k) texts = Response s b \<and> s \<in> {503, 429, 500}" by blast
    then show "\<exists>b s. api (calls (sleep d (post texts w)) + k) texts = Response s b
        \<and> s \<in> {503, 429, 500}"
      by (simp add: calls_sleep_post)
  qed
  show ?case using r s Cons.IH[OF hk] by (auto simp: Let_def calls_sleep_post)
qed

text \<open>
  Claim C10. When every one of the \<open>max_retries\<close> iterations of \<open>_make_api_request\<close> ends
  in an HTTP 503, 429 or 500 response, the loop is left without a \<open>return\<close> or a \<open>raise\<close>:
  the function returns \<open>None\<close>, after exactly \<open>max_retries\<close> requests.
\<close>

theorem make_api_request_exhausted_returns_None:
  "(\<forall>k < max_retries. \<exists>b s. api (calls w + k) texts = Response s b \<and> s \<in> {503, 429, 500})
   \<Longrightarrow> fst (make_api_request api texts max_retries w) = Inr None
     \<and> calls (snd (make_api_request api texts max_retries w)) = calls w + max_retries"
  using attempts_loop_all_retry [of "[0..<max_retries]" api w texts max_retries]
  by (simp add: make_api_request_def)



theorem make_api_request_exhausted_returns_None_witness:
  "fst (make_api_request (\<lambda>n ts. Response (if n < 2 then 503 else if n = 2 then 429 else 500) ([] :: nat list))
      [''soup''] 5 (\<lparr>calls = 0, trace = [], checkpoint_file = None\<rparr> :: (nat, nat) world)) = Inr None"
proof -
  let ?api = "\<lambda>(n::nat) (ts::string list). Response (if n < 2 then 503 else if n = 2 then 429 else 500) ([] :: nat list)"
  let ?w = "\<lparr>calls = 0, trace = [], checkpoint_file = None\<rparr> :: (nat, nat) world"
  have h: "\<forall>k < 5. \<exists>b s. ?api (calls ?w + k) [''soup''] = Response s b \<and> s \<in> {503, 429, 500}"
    by simp
  from make_api_request_exhausted_returns_None [OF h] show ?thesis by simp
qed

text \<open>
  Claim C9. A run of \<open>_make_api_request\<close> (with at least two attempts, as the default five)
  in which the API answers 429 once and then 200 returns the same embeddings as a run in
  which it answers 200 at once: the body of the 200 response.
\<close>

theorem retry_after_429_transparent:
  assumes "2 \<le> max_retries"
    and "api1 (calls w1) texts = Response 429 b"
    and "api1 (Suc (calls w1)) texts = Response 200 body"
    and "api2 (calls w2) texts = Response 200 body"
  shows "fst (make_api_request api1 texts max_retries w1) = Inr (Some body)
       \<and> fst (make_api_request api1 texts max_retries w1)
         = fst (make_api_request api2 texts max_retries w2)"
proof -
  from assms(1) have "0 < max_retries" "Suc 0 < max_retries" by simp_all
  then have r: "[0..<max_retries] = 0 # Suc 0 # [Suc (Suc 0)..<max_retries]"
    by (simp add: upt_conv_Cons)
  have a: "fst (make_api_request api1 texts max_retries w1) = Inr (Some body)"
    using assms(2,3) by (simp add: make_api_request_def r Let_def calls_sleep_post)
  have b: "fst (make_api_request api2 texts max_retries w2) = Inr (Some body)"
    using assms(4) by (simp add: make_api_request_def r Let_def)
  from a b show ?thesis by simp
qed

theorem retry_after_429_transparent_witness:
  "fst (make_api_request (\<lambda>n ts. if n = 0 then Response 429 [] else Response 200 [1::nat, 2]) [''a'', ''b''] 5
         (\<lparr>calls = 0, trace = [], checkpoint_file = None\<rparr> :: (nat, nat) world))
   = fst (make_api_request (\<lambda>n ts. Response 200 [1::nat, 2]) [''a'', ''b''] 5
         (\<lparr>calls = 0, trace = [], checkpoint_file = None\<rparr> :: (nat, nat) world))"
proof -
  let ?api1 = "\<lambda>(n::nat) (ts::string list). if n = 0 then Response 429 [] else Response 200 [1::nat, 2]"
  let ?api2 = "\<lambda>(n::nat) (ts::string list). Response 200 [1::nat, 2]"
  let ?w = "\<lparr>calls = 0, trace = [], checkpoint_file = None\<rparr> :: (nat, nat) world"
  have h1: "(2::nat) \<le> 5" by simp
  have h2: "?api1 (calls ?w) [''a'', ''b''] = Response 429 []" by simp
  have h3: "?api1 (Suc (calls ?w)) [''a'', ''b''] = Response 200 [1, 2]" by simp
  have h4: "?api2 (calls ?w) [''a'', ''b''] = Response 200 [1, 2]" by simp
  show ?thesis
    by (rule retry_after_429_transparent
      [where ?api1.0 = ?api1 and ?api2.0 = ?api2 and ?w1.0 = ?w and ?w2.0 = ?w
         and texts = "[''a'', ''b'']", OF h1 h2 h3 h4, THEN conjunct2])
qed

lemma trace_sleep_post:
  "trace (sleep d (post texts w)) = trace w @ [Post texts, Sleep d]"
  by (simp add: sleep_def post_def)

lemma attempts_loop_effects:
  "\<exists>k \<le> length as.
     calls (snd (attempts_loop api texts mr as w)) = calls w + k
   \<and> posted (trace (snd (attempts_loop api texts mr as w)))
       = posted (trace w) @ replicate k texts
   \<and> checkpoint_file (snd (attempts_loop api texts mr as w)) = checkpoint_file w"
proof (induction as arbitrary: w)
  case Nil
  then show ?case by simp
next
  case (Cons a as)
  have step: "\<exists>k \<le> length (a # as).
     calls (snd (attempts_loop api texts mr as (sleep d (post texts w)))) = calls w + k
   \<and> posted (trace (snd (attempts_loop api texts mr as (sleep d (post texts w)))))
       = posted (trace w) @ replicate k texts
   \<and> checkpoint_file (snd (attempts_loop api texts mr as (sleep d (post texts w))))
       = checkpoint_file w" for d
  proof -
    from Cons.IH [of "sleep d (post texts w)"] obtain k where k: "k \<le> length as"
      "calls (snd (attempts_loop api texts mr as (sleep d (post texts w)))) = Suc (calls w) + k"
      "posted (trace (snd (attempts_loop api texts mr as (sleep d (post texts w)))))
         = posted (trace w) @ texts # replicate k texts"
      "checkpoint_file (snd (attempts_loop api texts mr as (sleep d (post texts w))))
         = checkpoint_file w"
      by (auto simp: calls_sleep_post trace_sleep_post posted_append sleep_def post_def)
    then show ?thesis
      by (intro exI [of _ "Suc k"]) simp
  qed
  have stop: "\<exists>k \<le> length (a # as).
     calls (post texts w) = calls w + k
   \<and> posted (trace (post texts w)) = posted (trace w) @ replicate k texts
   \<and> checkpoint_file (post texts w) = checkpoint_file w"
    by (intro exI [of _ "Suc 0"]) (simp add: post_def posted_append)
  show ?case
  proof (cases "api (calls w) texts")
    case NetworkFailure
    then show ?thesis using step stop by (simp add: Let_def)
  next
    case (Response s b)
    then show ?thesis using step stop by (simp add: Let_def)
  qed
qed

lemma attempts_loop_network_exhausted:
  "j < mr \<Longrightarrow> \<forall>k < mr - j. api (calls w + k) texts = NetworkFailure
   \<Longrightarrow> fst (attempts_loop api texts mr [j..<mr] w) = Inl ConnectionError
     \<and> calls (snd (attempts_loop api texts mr [j..<mr] w)) = calls w + (mr - j)"
proof (induction "mr - j" arbitrary: j w)
  case 0
  then show ?case by simp
next
  case (Suc n)
  from Suc.prems have r: "[j..<mr] = j # [Suc j..<mr]" by (simp add: upt_conv_Cons)
  from Suc.prems have f0: "api (calls w) texts = NetworkFailure"
    by (metis add.right_neutral zero_less_diff)
  show ?case
  proof (cases "j = mr - 1")
    case True
    with Suc.prems have "[Suc j..<mr] = []" "mr - j = 1" by simp_all
    then show ?thesis using f0 True r by (simp add: Let_def post_def)
  next
    case False
    with Suc.prems have j: "Suc j < mr" by simp
    from Suc.hyps have n: "n = mr - Suc j" by simp
    have "\<forall>k < mr - Suc j. api (calls (sleep d (post texts w)) + k) texts = NetworkFailure" for d
    proof (intro allI impI)
      fix k assume "k < mr - Suc j"
      then have "Suc k < mr - j" by simp
      with Suc.prems have "api (calls w + Suc k) texts = NetworkFailure" by blast
      then show "api (calls (sleep d (post texts w)) + k) texts = NetworkFailure"
        by (simp add: calls_sleep_post)
    qed
    from Suc.hyps(1) [OF n j this] show ?thesis
      using f0 False r j by (simp add: Let_def calls_sleep_post)
  qed
qed

text \<open>
  Claim C2, as the code has it. One attempt of \<open>_make_api_request\<close>: a 503 response waits
  20 seconds, a 429 response 30 seconds and a 500 response \<open>30 * (attempt + 1)\<close> seconds, and
  each then goes on to the next attempt. Any other status from 400 to 599 and a
  network-level exception are handled alike: re-raised on the last attempt
  (\<open>attempt = max_retries - 1\<close>), and otherwise followed by a wait of \<open>10 * (attempt + 1)\<close>
  seconds and the next attempt. Any other status returns the body. All branches draw on
  the same \<open>max_retries\<close> attempts, so one call issues at most \<open>max_retries\<close> requests; when
  all of them fail at the network level, the last failure is re-raised.
\<close>

theorem make_api_request_policy:
  "(api (calls w) texts = Response 503 b \<longrightarrow>
      attempts_loop api texts mr (a # rest) w
      = attempts_loop api texts mr rest (sleep 20 (post texts w)))
 \<and> (api (calls w) texts = Response 429 b \<longrightarrow>
      attempts_loop api texts mr (a # rest) w
      = attempts_loop api texts mr rest (sleep 30 (post texts w)))
 \<and> (api (calls w) texts = Response 500 b \<longrightarrow>
      attempts_loop api texts mr (a # rest) w
      = attempts_loop api texts mr rest (sleep (30 * (a + 1)) (post texts w)))
 \<and> (api (calls w) texts = Response s b \<and> 400 \<le> s \<and> s < 600 \<and> s \<notin> {503, 429, 500} \<longrightarrow>
      attempts_loop api texts mr (a # rest) w
      = (if a = mr - 1 then (Inl (HTTPError s), post texts w)
         else attempts_loop api texts mr rest (sleep (10 * (a + 1)) (post texts w))))
 \<and> (api (calls w) texts = NetworkFailure \<longrightarrow>
      attempts_loop api texts mr (a # rest) w
      = (if a = mr - 1 then (Inl ConnectionError, post texts w)
         else attempts_loop api texts mr rest (sleep (10 * (a + 1)) (post texts w))))
 \<and> (api (calls w) texts = Response s b \<and> \<not> (400 \<le> s \<and> s < 600) \<longrightarrow>
      attempts_loop api texts mr (a # rest) w = (Inr (Some b), post texts w))
 \<and> calls (snd (make_api_request api texts mr w)) \<le> calls w + mr
 \<and> (0 < mr \<and> (\<forall>k < mr. api (calls w + k) texts = NetworkFailure) \<longrightarrow>
      fst (make_api_request api texts mr w) = Inl ConnectionError
      \<and> calls (snd (make_api_request api texts mr w)) = calls w + mr)"
proof -
  have cap: "calls (snd (make_api_request api texts mr w)) \<le> calls w + mr"
    using attempts_loop_effects [of "[0..<mr]" api texts mr w]
    by (auto simp: make_api_request_def)
  have net: "0 < mr \<and> (\<forall>k < mr. api (calls w + k) texts = NetworkFailure) \<longrightarrow>
      fst (make_api_request api texts mr w) = Inl ConnectionError
      \<and> calls (snd (make_api_request api texts mr w)) = calls w + mr"
    using attempts_loop_network_exhausted [of 0 mr api w texts]
    by (simp add: make_api_request_def)
  show ?thesis
    apply (intro conjI)
           apply (simp_all add: Let_def cap net)
    done
qed

text \<open>
  The claim as written fails twice. An API that always answers 503 is asked five times and
  no more, and the call returns \<open>None\<close>: the 503/429/500 branches are capped. And a 404
  answer on the first attempt is not raised: the call waits 10 seconds and tries again.
\<close>

theorem make_api_request_retry_cap_counterexample:
  "make_api_request busy_api [''soup''] 5 fresh_world
   = (Inr None,
      \<lparr>calls = 5,
       trace = [Post [''soup''], Sleep 20, Post [''soup''], Sleep 20, Post [''soup''], Sleep 20,
                Post [''soup''], Sleep 20, Post [''soup''], Sleep 20],
       checkpoint_file = None\<rparr>)
 \<and> make_api_request not_found_once_api [''soup''] 5 fresh_world
   = (Inr (Some [7]),
      \<lparr>calls = 2, trace = [Post [''soup''], Sleep 10, Post [''soup'']], checkpoint_file = None\<rparr>)"
  by (simp add: make_api_request_def Let_def post_def sleep_def upt_conv_Cons
      busy_api_def not_found_once_api_def fresh_world_def)

theorem make_api_request_policy_witness:
  "make_api_request
     (\<lambda>n ts. if n = 0 then Response 503 [] else if n = 1 then Response 500 []
              else if n = 2 then Response 404 [] else if n = 3 then NetworkFailure
              else Response 200 [7 :: nat])
     [''soup''] 5 (\<lparr>calls = 0, trace = [], checkpoint_file = None\<rparr> :: (nat, nat) world)
   = (Inr (Some [7]),
      \<lparr>calls = 5,
       trace = [Post [''soup''], Sleep 20, Post [''soup''], Sleep 60, Post [''soup''], Sleep 30,
                Post [''soup''], Sleep 40, Post [''soup'']],
       checkpoint_file = None\<rparr>)"
proof -
  let ?api = "\<lambda>(n::nat) (ts::string list).
      if n = 0 then Response 503 [] else if n = 1 then Response 500 []
      else if n = 2 then Response 404 [] else if n = 3 then NetworkFailure
      else Response 200 [7 :: nat]"
  let ?w = "\<lparr>calls = 0, trace = [], checkpoint_file = None\<rparr> :: (nat, nat) world"
  have first: "attempts_loop ?api [''soup''] 5 (0 # [1, 2, 3, 4]) ?w
      = attempts_loop ?api [''soup''] 5 [1, 2, 3, 4] (sleep 20 (post [''soup''] ?w))"
    using make_api_request_policy
      [where api = ?api and w = ?w and texts = "[''soup'']" and b = "[]" and a = 0
         and rest = "[1, 2, 3, 4]" and mr = 5, THEN conjunct1]
    by simp
  have "[0..<5] = 0 # [1, 2, 3, 4 :: nat]"
    by (simp add: upt_conv_Cons)
  then have "make_api_request ?api [''soup''] 5 ?w
      = attempts_loop ?api [''soup''] 5 [1, 2, 3, 4] (sleep 20 (post [''soup''] ?w))"
    using first by (simp only: make_api_request_def)
  then show ?thesis
    by (simp add: Let_def post_def sleep_def)
qed

section \<open>Properties of the batch loop and its checkpoints\<close>

lemma range_count_step:
  assumes "0 < (n::nat)" and "s < stop"
  shows "(stop - s + n - 1) div n = Suc ((stop - (s + n) + n - 1) div n)"
proof -
  define x where "x = stop - s - 1"
  have e: "stop - s + n - 1 = x + n"
    unfolding x_def using assms by arith
  have d: "(x + n) div n = Suc (x div n)"
    using assms(1) by simp
  have l: "(stop - s + n - 1) div n = Suc (x div n)"
    unfolding e by (rule d)
  show ?thesis
  proof (cases "s + n \<le> stop")
    case True
    then have "stop - (s + n) + n - 1 = x"
      unfolding x_def using assms by arith
    with l show ?thesis by (simp only:)
  next
    case False
    then have a: "stop - (s + n) + n - 1 = n - 1" by arith
    from False assms have "x < n" unfolding x_def by arith
    then have "x div n = 0" by simp
    moreover from assms(1) have "(n - 1) div n = 0" by simp
    ultimately show ?thesis unfolding a l by (simp only:)
  qed
qed

lemma py_range_rec:
  assumes "0 < n"
  shows "py_range s stop n = (if s < stop then s # py_range (s + n) stop n else [])"
proof (cases "s < stop")
  case False
  with assms have "(stop - s + n - 1) div n = 0" by simp
  with False show ?thesis by (simp add: py_range_def)
next
  case True
  have u: "[0..<Suc m] = 0 # map Suc [0..<m]" for m
    by (simp add: upt_conv_Cons map_Suc_upt del: upt_Suc)
  have "py_range s stop n = s # map (\<lambda>k. s + Suc k * n) [0..<(stop - (s + n) + n - 1) div n]"
    unfolding py_range_def range_count_step [OF assms True] u
    by (simp add: comp_def)
  also have "map (\<lambda>k. s + Suc k * n) [0..<(stop - (s + n) + n - 1) div n] = py_range (s + n) stop n"
    by (simp add: py_range_def add.assoc)
  finally show ?thesis using True by simp
qed


lemma py_range_set:
  assumes "0 < n"
  shows "set (py_range s stop n) = {s + k * n | k. s + k * n < stop}"
proof -
  have "k < (stop - s + n - 1) div n \<longleftrightarrow> s + k * n < stop" for k
  proof -
    have "k < (stop - s + n - 1) div n \<longleftrightarrow> Suc k \<le> (stop - s + n - 1) div n" by arith
    also have "\<dots> \<longleftrightarrow> Suc k * n \<le> stop - s + n - 1"
      using assms by (simp only: less_eq_div_iff_mult_less_eq)
    also have "\<dots> \<longleftrightarrow> k * n + n \<le> stop - s + n - 1" by (simp add: add.commute)
    also have "\<dots> \<longleftrightarrow> s + k * n < stop" using assms by arith
    finally show ?thesis .
  qed
  then show ?thesis by (auto simp: py_range_def)
qed

lemma concat_slices:
  assumes "0 < n"
  shows "concat (map (\<lambda>i. slice xs i n) (py_range s (length xs) n)) = drop s xs"
proof (induction "length xs - s" arbitrary: s rule: less_induct)
  case less
  show ?case
  proof (cases "s < length xs")
    case False
    then show ?thesis by (simp add: py_range_rec [OF assms])
  next
    case True
    with assms have "length xs - (s + n) < length xs - s" by arith
    from less [OF this]
    have "concat (map (\<lambda>i. slice xs i n) (py_range (s + n) (length xs) n)) = drop (s + n) xs" .
    moreover have "slice xs s n @ drop (s + n) xs = drop s xs"
      by (simp add: slice_def add.commute [of s n] flip: drop_drop)
    ultimately show ?thesis
      using True by (subst py_range_rec [OF assms]) simp
  qed
qed

lemma attempts_loop_trace:
  "\<exists>more. trace (snd (attempts_loop api texts mr as w)) = trace w @ more"
proof (induction as arbitrary: w)
  case Nil
  then show ?case by simp
next
  case (Cons a as)
  have step: "\<exists>more. trace (snd (attempts_loop api texts mr as (sleep d (post texts w))))
      = trace w @ more" for d
    using Cons.IH [of "sleep d (post texts w)"] by (auto simp: trace_sleep_post)
  have stop: "\<exists>more. trace (post texts w) = trace w @ more"
    by (simp add: post_def)
  show ?case
  proof (cases "api (calls w) texts")
    case NetworkFailure
    then show ?thesis using step stop by (simp add: Let_def)
  next
    case (Response s b)
    then show ?thesis using step stop by (simp add: Let_def)
  qed
qed

lemma attempts_loop_body:
  "fst (attempts_loop api texts mr as w) = Inr (Some body)
   \<Longrightarrow> \<exists>n s. api n texts = Response s body"
proof (induction as arbitrary: w)
  case Nil
  then show ?case by simp
next
  case (Cons a as)
  show ?case
  proof (cases "api (calls w) texts")
    case NetworkFailure
    with Cons show ?thesis by (auto simp: Let_def split: if_splits)
  next
    case (Response s b)
    with Cons show ?thesis by (auto simp: Let_def split: if_splits)
  qed
qed

lemma attempts_loop_ok:
  "api (calls w) texts = Response 200 body
   \<Longrightarrow> attempts_loop api texts mr (a # as) w = (Inr (Some body), post texts w)"
  by (simp add: Let_def)

lemma make_api_request_ok:
  "api (calls w) texts = Response 200 body
   \<Longrightarrow> make_api_request api texts 5 w = (Inr (Some body), post texts w)"
  by (simp add: make_api_request_def upt_conv_Cons Let_def)


lemma make_api_request_effects:
  "\<exists>k more. posted (trace (snd (make_api_request api texts mr w)))
        = posted (trace w) @ replicate k texts
    \<and> trace (snd (make_api_request api texts mr w)) = trace w @ more"
  using attempts_loop_effects [of "[0..<mr]" api texts mr w]
    attempts_loop_trace [of api texts mr "[0..<mr]" w]
  unfolding make_api_request_def by blast

lemma process_batch_cases:
  obtains (failed) e w1 where
      "make_api_request api (slice texts i bs) 5 w = (Inl e, w1)"
      "process_batch api texts metas bs i acc w
         = (Inl e, save_checkpoint (i div bs) (fst acc) (snd acc) w1)"
  | (none) w1 where
      "make_api_request api (slice texts i bs) 5 w = (Inr None, w1)"
      "process_batch api texts metas bs i acc w
         = (Inl TypeError, save_checkpoint (i div bs) (fst acc) (snd acc) w1)"
  | (ok) body w1 where
      "make_api_request api (slice texts i bs) 5 w = (Inr (Some body), w1)"
      "process_batch api texts metas bs i acc w
         = (Inr (fst acc @ body, snd acc @ slice metas i bs),
            sleep 1 (if (i div bs) mod 5 = 0
                     then save_checkpoint (i div bs) (fst acc @ body)
                            (snd acc @ slice metas i bs) w1
                     else w1))"
proof -
  obtain r w1 where m: "make_api_request api (slice texts i bs) 5 w = (r, w1)"
    by (cases "make_api_request api (slice texts i bs) 5 w")
  show thesis
  proof (cases r)
    case (Inl e)
    with m failed show ?thesis by (simp add: process_batch_def Let_def)
  next
    case (Inr b)
    show ?thesis
    proof (cases b)
      case None
      with m Inr none show ?thesis by (simp add: process_batch_def Let_def)
    next
      case (Some body)
      with m Inr ok show ?thesis by (simp add: process_batch_def Let_def)
    qed
  qed
qed

lemma trace_save_checkpoint:
  "trace (save_checkpoint idx E M w)
     = trace w @ [SaveCheckpoint \<lparr>batch_index = idx, embeddings = E, metadata = M\<rparr>]"
  "checkpoint_file (save_checkpoint idx E M w)
     = Some \<lparr>batch_index = idx, embeddings = E, metadata = M\<rparr>"
  by (simp_all add: save_checkpoint_def Let_def)

lemma trace_sleep: "trace (sleep d w) = trace w @ [Sleep d]"
  "checkpoint_file (sleep d w) = checkpoint_file w" "calls (sleep d w) = calls w"
  by (simp_all add: sleep_def)

lemma process_batch_effects:
  "\<exists>k more. posted (trace (snd (process_batch api texts metas bs i acc w)))
        = posted (trace w) @ replicate k (slice texts i bs)
    \<and> trace (snd (process_batch api texts metas bs i acc w)) = trace w @ more"
proof -
  from make_api_request_effects [of api "slice texts i bs" 5 w]
  obtain k more where
    e: "posted (trace (snd (make_api_request api (slice texts i bs) 5 w)))
          = posted (trace w) @ replicate k (slice texts i bs)"
       "trace (snd (make_api_request api (slice texts i bs) 5 w)) = trace w @ more"
    by blast
  show ?thesis
  proof (cases rule: process_batch_cases [of api texts i bs w metas acc])
    case (failed e' w1)
    with e show ?thesis by (simp add: trace_save_checkpoint posted_append)
  next
    case (none w1)
    with e show ?thesis by (simp add: trace_save_checkpoint posted_append)
  next
    case (ok body w1)
    with e show ?thesis by (simp add: trace_save_checkpoint trace_sleep posted_append)
  qed
qed

lemma process_batch_success:
  assumes "process_batch api texts metas bs i acc w = (Inr acc', w')"
  shows "(\<exists>body n s. api n (slice texts i bs) = Response s body
            \<and> acc' = (fst acc @ body, snd acc @ slice metas i bs))
       \<and> ((i div bs) mod 5 = 0 \<longrightarrow>
            checkpoint_file w'
              = Some \<lparr>batch_index = i div bs, embeddings = fst acc', metadata = snd acc'\<rparr>
          \<and> SaveCheckpoint \<lparr>batch_index = i div bs, embeddings = fst acc', metadata = snd acc'\<rparr>
              \<in> set (new_events w w'))"
proof (cases rule: process_batch_cases [of api texts i bs w metas acc])
  case (failed e w1)
  with assms show ?thesis by simp
next
  case (none w1)
  with assms show ?thesis by simp
next
  case (ok body w1)
  from ok(1) have "fst (attempts_loop api (slice texts i bs) 5 [0..<5] w) = Inr (Some body)"
    by (simp add: make_api_request_def)
  from attempts_loop_body [OF this]
  obtain n s where "api n (slice texts i bs) = Response s body" by blast
  moreover from make_api_request_effects [of api "slice texts i bs" 5 w] ok(1)
  obtain more where "trace w1 = trace w @ more" by auto
  ultimately show ?thesis using ok assms
    by (auto simp: trace_save_checkpoint trace_sleep new_events_def)
qed

lemma process_batch_failure:
  assumes "process_batch api texts metas bs i acc w = (Inl e, w')"
  shows "checkpoint_file w'
           = Some \<lparr>batch_index = i div bs, embeddings = fst acc, metadata = snd acc\<rparr>
       \<and> trace w' \<noteq> []
       \<and> last (trace w')
           = SaveCheckpoint \<lparr>batch_index = i div bs, embeddings = fst acc, metadata = snd acc\<rparr>"
proof (cases rule: process_batch_cases [of api texts i bs w metas acc])
  case (failed e w1)
  with assms show ?thesis by (auto simp: trace_save_checkpoint)
next
  case (none w1)
  with assms show ?thesis by (auto simp: trace_save_checkpoint)
next
  case (ok body w1)
  with assms show ?thesis by simp
qed


lemma batch_loop_step:
  obtains (stop) e w1 where
      "process_batch api texts metas bs i acc w = (Inl e, w1)"
      "batch_loop api texts metas bs (i # is) acc w = (Inl e, w1)"
  | (go) acc1 w1 where
      "process_batch api texts metas bs i acc w = (Inr acc1, w1)"
      "batch_loop api texts metas bs (i # is) acc w = batch_loop api texts metas bs is acc1 w1"
proof -
  obtain r w1 where m: "process_batch api texts metas bs i acc w = (r, w1)"
    by (cases "process_batch api texts metas bs i acc w")
  show thesis
  proof (cases r)
    case (Inl e)
    with m stop show ?thesis by simp
  next
    case (Inr acc1)
    with m go show ?thesis by simp
  qed
qed

lemma batch_loop_requests:
  "\<exists>new more. posted (trace (snd (batch_loop api texts metas bs is acc w)))
        = posted (trace w) @ new
     \<and> set new \<subseteq> (\<lambda>i. slice texts i bs) ` set is
     \<and> trace (snd (batch_loop api texts metas bs is acc w)) = trace w @ more"
proof (induction "is" arbitrary: acc w)
  case Nil
  then show ?case by simp
next
  case (Cons i "is")
  from process_batch_effects [of api texts metas bs i acc w]
  obtain k more where
    e: "posted (trace (snd (process_batch api texts metas bs i acc w)))
          = posted (trace w) @ replicate k (slice texts i bs)"
       "trace (snd (process_batch api texts metas bs i acc w)) = trace w @ more"
    by blast
  have r: "set (replicate k (slice texts i bs)) \<subseteq> (\<lambda>i. slice texts i bs) ` set (i # is)"
    by auto
  show ?case
  proof (cases rule: batch_loop_step [of api texts metas bs i acc w "is"])
    case (stop e' w1)
    with e r show ?thesis by (intro exI [of _ "replicate k (slice texts i bs)"]) simp
  next
    case (go acc1 w1)
    from Cons.IH [of acc1 w1] obtain new more1 where
      n: "posted (trace (snd (batch_loop api texts metas bs is acc1 w1)))
            = posted (trace w1) @ new"
         "set new \<subseteq> (\<lambda>i. slice texts i bs) ` set is"
         "trace (snd (batch_loop api texts metas bs is acc1 w1)) = trace w1 @ more1"
      by blast
    have "set (replicate k (slice texts i bs) @ new) \<subseteq> (\<lambda>i. slice texts i bs) ` set (i # is)"
      using r n(2) by auto
    with go e n show ?thesis
      by (intro exI [of _ "replicate k (slice texts i bs) @ new"] exI [of _ "more @ more1"]) simp
  qed
qed

lemma batch_loop_length:
  assumes "index_aligned api"
  shows "batch_loop api texts metas bs is acc w = (Inr acc', w')
    \<Longrightarrow> length (fst acc') = length (fst acc) + length (concat (map (\<lambda>i. slice texts i bs) is))"
proof (induction "is" arbitrary: acc w)
  case Nil
  then show ?case by simp
next
  case (Cons i "is")
  show ?case
  proof (cases rule: batch_loop_step [of api texts metas bs i acc w "is"])
    case (stop e w1)
    with Cons.prems show ?thesis by simp
  next
    case (go acc1 w1)
    from process_batch_success [OF go(1)] obtain body n s where
      b: "api n (slice texts i bs) = Response s body" "acc1 = (fst acc @ body, snd acc @ slice metas i bs)"
      by blast
    from assms b(1) have "length body = length (slice texts i bs)"
      unfolding index_aligned_def by blast
    moreover from go Cons.prems have "batch_loop api texts metas bs is acc1 w1 = (Inr acc', w')"
      by simp
    from Cons.IH [OF this]
    have "length (fst acc') = length (fst acc1) + length (concat (map (\<lambda>i. slice texts i bs) is))" .
    ultimately show ?thesis using b(2) by simp
  qed
qed

lemma batch_loop_failure:
  "batch_loop api texts metas bs is acc w = (Inl e, w')
   \<Longrightarrow> \<exists>c more. checkpoint_file w' = Some c \<and> trace w' \<noteq> []
        \<and> last (trace w') = SaveCheckpoint c \<and> embeddings c = fst acc @ more
        \<and> batch_index c \<in> (\<lambda>i. i div bs) ` set is"
proof (induction "is" arbitrary: acc w)
  case Nil
  then show ?case by simp
next
  case (Cons i "is")
  show ?case
  proof (cases rule: batch_loop_step [of api texts metas bs i acc w "is"])
    case (stop e1 w1)
    with Cons.prems have "process_batch api texts metas bs i acc w = (Inl e, w')" by simp
    from process_batch_failure [OF this] show ?thesis by simp
  next
    case (go acc1 w1)
    from process_batch_success [OF go(1)] obtain body where
      b: "acc1 = (fst acc @ body, snd acc @ slice metas i bs)"
      by blast
    from go Cons.prems have "batch_loop api texts metas bs is acc1 w1 = (Inl e, w')"
      by simp
    from Cons.IH [OF this] b show ?thesis by auto
  qed
qed

lemma batch_loop_cadence:
  "batch_loop api texts metas bs is acc w = (Inr acc', w')
   \<Longrightarrow> i \<in> set is \<Longrightarrow> (i div bs) mod 5 = 0
   \<Longrightarrow> \<exists>E M. SaveCheckpoint \<lparr>batch_index = i div bs, embeddings = E, metadata = M\<rparr>
          \<in> set (new_events w w')"
proof (induction "is" arbitrary: acc w)
  case Nil
  then show ?case by simp
next
  case (Cons j "is")
  show ?case
  proof (cases rule: batch_loop_step [of api texts metas bs j acc w "is"])
    case (stop e w1)
    with Cons.prems show ?thesis by simp
  next
    case (go acc1 w1)
    with Cons.prems have rest: "batch_loop api texts metas bs is acc1 w1 = (Inr acc', w')"
      by simp
    from process_batch_effects [of api texts metas bs j acc w] go(1)
    obtain m1 where m1: "trace w1 = trace w @ m1" by auto
    from batch_loop_requests [of api texts metas bs "is" acc1 w1] rest
    obtain m2 where m2: "trace w' = trace w1 @ m2" by auto
    have ev: "new_events w w1 = m1" "new_events w1 w' = m2" "new_events w w' = m1 @ m2"
      by (simp_all add: new_events_def m1 m2)
    show ?thesis
    proof (cases "i = j")
      case True
      with process_batch_success [OF go(1)] Cons.prems(3)
      have "SaveCheckpoint \<lparr>batch_index = i div bs, embeddings = fst acc1, metadata = snd acc1\<rparr>
              \<in> set (new_events w w1)" by simp
      then show ?thesis unfolding ev by auto
    next
      case False
      with Cons.prems(2) have "i \<in> set is" by simp
      from Cons.IH [OF rest this Cons.prems(3)] show ?thesis unfolding ev by auto
    qed
  qed
qed

lemma batch_loop_all_ok:
  assumes "\<forall>n ts. \<exists>body. api n ts = Response 200 body \<and> length body = length ts"
  shows "\<exists>acc'. fst (batch_loop api texts metas bs is acc w) = Inr acc'
     \<and> posted (trace (snd (batch_loop api texts metas bs is acc w)))
         = posted (trace w) @ map (\<lambda>i. slice texts i bs) is"
proof (induction "is" arbitrary: acc w)
  case Nil
  then show ?case by simp
next
  case (Cons i "is")
  from assms obtain body where b: "api (calls w) (slice texts i bs) = Response 200 body"
    by blast
  have m: "make_api_request api (slice texts i bs) 5 w = (Inr (Some body), post (slice texts i bs) w)"
    using b by (rule make_api_request_ok [where api = api and w = w])
  show ?case
  proof (cases rule: process_batch_cases [of api texts i bs w metas acc])
    case (failed e w1)
    with m show ?thesis by simp
  next
    case (none w1)
    with m show ?thesis by simp
  next
    case (ok body1 w1)
    with m have w1: "w1 = post (slice texts i bs) w" by simp
    let ?w2 = "sleep 1 (if (i div bs) mod 5 = 0
                     then save_checkpoint (i div bs) (fst acc @ body1)
                            (snd acc @ slice metas i bs) w1
                     else w1)"
    have p: "posted (trace ?w2) = posted (trace w) @ [slice texts i bs]"
      by (simp add: w1 trace_sleep trace_save_checkpoint posted_append post_def)
    from Cons.IH [of "(fst acc @ body1, snd acc @ slice metas i bs)" ?w2] ok(2) p
    show ?thesis by simp
  qed
qed


text \<open>
  Claim C1, as the code has it. Started on a checkpoint whose batch index is 2, with batch
  size 32, \<open>generate_embeddings\<close> posts only slices \<open>texts[i:i + 32]\<close> with \<open>64 \<le> i\<close>. When
  every response carries one embedding per posted text, a run that returns has
  \<open>len(checkpoint embeddings) + len(texts[64:])\<close> embeddings, which is \<open>len(texts)\<close> when the
  checkpoint holds 64 embeddings and there are at least 64 texts. When the API answers
  every request with 200 and one embedding per text, the run returns, and the requests it
  posted are, end to end, \<open>texts[64:]\<close>.
\<close>

theorem generate_embeddings_resume:
  assumes "checkpoint_file w = Some c" and "batch_index c = 2"
  shows
    "(\<forall>r \<in> set (new_requests w (snd (generate_embeddings api texts metas 32 w))).
        \<exists>i. 64 \<le> i \<and> i < length texts \<and> r = slice texts i 32)
   \<and> (index_aligned api \<longrightarrow>
        (\<forall>embs ms. fst (generate_embeddings api texts metas 32 w) = Inr (embs, ms) \<longrightarrow>
           length embs = length (embeddings c) + length (drop 64 texts)
         \<and> (length (embeddings c) = 64 \<and> 64 \<le> length texts \<longrightarrow> length embs = length texts)))
   \<and> ((\<forall>n ts. \<exists>body. api n ts = Response 200 body \<and> length body = length ts) \<longrightarrow>
        (\<exists>embs ms. fst (generate_embeddings api texts metas 32 w) = Inr (embs, ms)
           \<and> length embs = length (embeddings c) + length (drop 64 texts))
      \<and> concat (new_requests w (snd (generate_embeddings api texts metas 32 w)))
          = drop 64 texts)"
proof -
  let ?is = "py_range 64 (length texts) 32"
  let ?acc = "(embeddings c, metadata c)"
  have g: "generate_embeddings api texts metas 32 w = batch_loop api texts metas 32 ?is ?acc w"
    using assms by (simp add: generate_embeddings_def load_checkpoint_def)
  have mem: "64 \<le> i \<and> i < length texts" if "i \<in> set ?is" for i
    using that by (auto simp: py_range_set)
  have req: "\<forall>r \<in> set (new_requests w (snd (generate_embeddings api texts metas 32 w))).
        \<exists>i. 64 \<le> i \<and> i < length texts \<and> r = slice texts i 32"
  proof -
    from batch_loop_requests [of api texts metas 32 ?is ?acc w] obtain new where
      n: "posted (trace (snd (batch_loop api texts metas 32 ?is ?acc w))) = posted (trace w) @ new"
         "set new \<subseteq> (\<lambda>i. slice texts i 32) ` set ?is"
      by blast
    have "new_requests w (snd (generate_embeddings api texts metas 32 w)) = new"
      by (simp add: new_requests_def g n(1))
    with n(2) mem show ?thesis by blast
  qed
  have len: "length embs = length (embeddings c) + length (drop 64 texts)
         \<and> (length (embeddings c) = 64 \<and> 64 \<le> length texts \<longrightarrow> length embs = length texts)"
    if al: "index_aligned api"
      and res: "fst (generate_embeddings api texts metas 32 w) = Inr (embs, ms)" for embs ms
  proof -
    obtain w' where "batch_loop api texts metas 32 ?is ?acc w = (Inr (embs, ms), w')"
      using res unfolding g by (cases "batch_loop api texts metas 32 ?is ?acc w") simp
    from batch_loop_length [OF al this]
    have "length embs = length (embeddings c) + length (drop 64 texts)"
      by (simp add: concat_slices)
    then show ?thesis by simp
  qed
  have ok: "(\<exists>embs ms. fst (generate_embeddings api texts metas 32 w) = Inr (embs, ms)
           \<and> length embs = length (embeddings c) + length (drop 64 texts))
      \<and> concat (new_requests w (snd (generate_embeddings api texts metas 32 w))) = drop 64 texts"
    if a: "\<forall>n ts. \<exists>body. api n ts = Response 200 body \<and> length body = length ts"
  proof -
    from a have al: "index_aligned api"
      unfolding index_aligned_def by (metis response.inject)
    from batch_loop_all_ok [OF a, of texts metas 32 ?is ?acc w] obtain acc' where
      r: "fst (batch_loop api texts metas 32 ?is ?acc w) = Inr acc'"
         "posted (trace (snd (batch_loop api texts metas 32 ?is ?acc w)))
            = posted (trace w) @ map (\<lambda>i. slice texts i 32) ?is"
      by blast
    from r(1) have res: "fst (generate_embeddings api texts metas 32 w) = Inr (fst acc', snd acc')"
      by (simp add: g)
    have "new_requests w (snd (generate_embeddings api texts metas 32 w))
        = map (\<lambda>i. slice texts i 32) ?is"
      by (simp add: new_requests_def g r(2))
    then have "concat (new_requests w (snd (generate_embeddings api texts metas 32 w)))
        = drop 64 texts"
      by (simp add: concat_slices)
    with len [OF al res] res show ?thesis by blast
  qed
  from req len ok show ?thesis by blast
qed


theorem generate_embeddings_resume_witness:
  "\<exists>embs ms.
     fst (generate_embeddings echo_api (replicate 70 ''tea'') (replicate 70 0) 32 stale_world)
       = Inr (embs, ms)
   \<and> length embs = 70"
proof -
  let ?c = "\<lparr>batch_index = 2, embeddings = replicate 64 (0::nat), metadata = replicate 64 (0::nat)\<rparr>"
  have h1: "checkpoint_file stale_world = Some ?c"
    by (simp add: stale_world_def)
  have h2: "batch_index ?c = 2"
    by simp
  have h3: "\<forall>n ts. \<exists>body. echo_api n ts = Response 200 body \<and> length body = length ts"
    by (simp add: echo_api_def)
  from generate_embeddings_resume [OF h1 h2, of echo_api "replicate 70 ''tea''" "replicate 70 0"]
  have "(\<forall>n ts. \<exists>body. echo_api n ts = Response 200 body \<and> length body = length ts) \<longrightarrow>
        (\<exists>embs ms. fst (generate_embeddings echo_api (replicate 70 ''tea'') (replicate 70 0) 32
             stale_world) = Inr (embs, ms)
           \<and> length embs = length (embeddings ?c) + length (drop 64 (replicate 70 ''tea'')))
      \<and> concat (new_requests stale_world (snd (generate_embeddings echo_api (replicate 70 ''tea'')
             (replicate 70 0) 32 stale_world)))
          = drop 64 (replicate 70 ''tea'')"
    by blast
  with h3 show ?thesis by simp
qed

text \<open>
  The claim as written, for every text list, fails: the checkpoint is not tied to the
  texts. With a checkpoint of batch index 2 that holds 64 embeddings and a single text,
  the loop range is empty, no request is made, and the 64 embeddings of the checkpoint are
  returned for the one text.
\<close>

theorem generate_embeddings_stale_checkpoint_counterexample:
  "fst (generate_embeddings echo_api [''soup''] [0] 32 stale_world)
     = Inr (replicate 64 0, replicate 64 0)
   \<and> length (replicate 64 (0::nat)) \<noteq> length [''soup'']"
  by (simp add: generate_embeddings_def load_checkpoint_def stale_world_def py_range_def)

section \<open>Properties of DataProcessor and CookingAssistant\<close>

lemma recipe_text_absent_columns:
  "recipe_text Map.empty = ''Recipe: . Ingredients: . TimeToCook: . Instructions: ''"
  by (simp add: recipe_text_def row_get_def)

lemma get_processed_data_rows:
  "get_processed_data (Inr df) = Inr (map recipe_text df, df)"
  by (simp add: get_processed_data_def)

text \<open>
  Claim C8 at a row whose \<open>TimeToCook\<close> field is empty in the file. The column is present,
  so the default of \<open>row.get\<close> is not used; the cell is NaN and is rendered as \<open>nan\<close>, not as
  the empty string. All four labels are there and nothing is raised.
\<close>

theorem get_processed_data_missing_cell_renders_nan:
  "get_processed_data (Inr [soup_row])
     = Inr ([''Recipe: Soup. Ingredients: water. TimeToCook: nan. Instructions: Boil''],
            [soup_row])"
  by (simp add: get_processed_data_def recipe_text_def row_get_def soup_row_def)

text \<open>
  Claim C7. For every message, API key (present or not) and behaviour of the API,
  \<open>process_message\<close> returns a string and raises nothing. When the API raises, the result
  is the second fallback string; when the response has no text or an empty one, it is the
  first; otherwise it is the text of the response, unchanged.
\<close>

theorem process_message_never_raises:
  "(\<exists>s. process_message api api_key message = Inr s)
 \<and> ((\<exists>e. api api_key (message @ instruction) = Inl e) \<longrightarrow>
      process_message api api_key message = Inr fallback_error)
 \<and> (api api_key (message @ instruction) = Inr NoText
      \<or> api api_key (message @ instruction) = Inr (Text []) \<longrightarrow>
      process_message api api_key message = Inr fallback_empty)
 \<and> (t \<noteq> [] \<and> api api_key (message @ instruction) = Inr (Text t) \<longrightarrow>
      process_message api api_key message = Inr t)"
proof -
  show ?thesis
  proof (cases "api api_key (message @ instruction)")
    case (Inl e)
    then show ?thesis by (simp add: process_message_def try_generate_def)
  next
    case (Inr r)
    then show ?thesis
      by (cases r) (auto simp: process_message_def try_generate_def)
  qed
qed

theorem process_message_never_raises_witness:
  "process_message keyless_gemini None ''   '' = Inr fallback_error"
proof -
  have "\<exists>e. keyless_gemini None (''   '' @ instruction) = Inl e"
    by (simp add: keyless_gemini_def)
  with process_message_never_raises [of keyless_gemini None "''   ''"]
  show ?thesis by blast
qed

section \<open>Properties of the ingredient search\<close>

lemma find_similar_recipes_rows:
  assumes "find_similar_recipes tbl search_term limit = Inr rs"
  shows "int (length rs) \<le> max 0 limit"
    and "\<forall>r \<in> set rs. similarity r = 1"
    and "\<forall>r \<in> set rs. \<exists>row \<in> set tbl.
           r = to_result row \<and> row_matches (parse_terms search_term) row"
proof -
  let ?found = "take (nat limit) (filter (row_matches (parse_terms search_term)) tbl)"
  from assms have rs: "rs = [] \<or> rs = map to_result ?found"
    by (auto simp: find_similar_recipes_def Let_def split: if_splits)
  then show "int (length rs) \<le> max 0 limit" by auto
  from rs show "\<forall>r \<in> set rs. similarity r = 1"
    by (auto simp: to_result_def)
  have "set ?found \<subseteq> set (filter (row_matches (parse_terms search_term)) tbl)"
    by (rule set_take_subset)
  with rs show "\<forall>r \<in> set rs. \<exists>row \<in> set tbl.
           r = to_result row \<and> row_matches (parse_terms search_term) row"
    by auto blast
qed

lemma find_similar_recipes_empty:
  "tbl = [] \<or> parse_terms search_term = [] \<Longrightarrow> find_similar_recipes tbl search_term limit = Inr []"
  by (auto simp: find_similar_recipes_def)

lemma like_percent: "like ''%'' s"
  by (induction s) simp_all

lemma like_plain_prefix:
  assumes "\<forall>c \<in> set t. c \<notin> {CHR ''%'', CHR ''_'', CHR 0x5C}"
  shows "like (t @ ''%'') s = starts_with t s"
  using assms
proof (induction t s rule: starts_with.induct)
  case (1 s)
  then show ?case using like_percent by simp
next
  case (2 p ps)
  then show ?case by simp
next
  case (3 p ps c cs)
  then show ?case by auto
qed

lemma like_plain_contains:
  assumes "\<forall>c \<in> set t. c \<notin> {CHR ''%'', CHR ''_'', CHR 0x5C}"
  shows "like (''%'' @ t @ ''%'') s = contains s t"
proof (induction s)
  case Nil
  have "like (t @ ''%'') [] = starts_with t []"
    by (rule like_plain_prefix [OF assms])
  then show ?case by (cases t) simp_all
next
  case (Cons c cs)
  have "like (t @ ''%'') (c # cs) = starts_with t (c # cs)"
    by (rule like_plain_prefix [OF assms])
  with Cons show ?case by simp
qed

text \<open>
  Claim C4 at the search term \<open>%\<close>. The term is put into the \<open>LIKE\<close> pattern as it is, so
  the pattern \<open>%%%\<close> matches every row: the row with the ingredients \<open>water, salt\<close> is
  returned, with similarity 1.0, although its ingredients do not contain the term. (For
  terms without \<open>%\<close>, \<open>_\<close> and backslash the pattern does mean containment, as
  \<open>like_plain_contains\<close> shows, and the bounds on the result are in
  \<open>find_similar_recipes_rows\<close>.)
\<close>

theorem find_similar_recipes_wildcard_term:
  "find_similar_recipes [prepare (plain_recipe 0 [])] ''%'' 2
     = Inr [\<lparr>res_RecipeName = Some ''Soup'', res_TimeToCook = Some ''10 mins'',
             res_Ingredients = Some ''water, salt'', res_Instructions = Some ''Boil'',
             similarity = 1\<rparr>]
   \<and> parse_terms ''%'' = [''%'']
   \<and> \<not> contains (lower ''water, salt'') ''%''"
  by (simp add: find_similar_recipes_def parse_terms_def strip_def lower_def lower_char_def
      py_isspace_def row_matches_def to_result_def prepare_def plain_recipe_def Let_def)

section \<open>Properties of the insert loop\<close>

lemma executed_append: "executed (xs @ ys) = executed xs @ executed ys"
  by (induction xs rule: executed.induct) auto


lemma insert_batch_cases:
  obtains (skipped) "map prepare batch = []" "insert_batch st batch w = (None, w)"
  | (committed) "map prepare batch \<noteq> []"
      "st (db_calls w) (table w) (map prepare batch) = InsertCommitted"
      "insert_batch st batch w
         = (None, w\<lparr>table := table w @ map prepare batch,
                     db_calls := Suc (db_calls w),
                     db_trace := db_trace w @ [ExecuteMany (map prepare batch), Commit]\<rparr>)"
  | (rolled_back) "map prepare batch \<noteq> []"
      "st (db_calls w) (table w) (map prepare batch) = InsertRolledBack"
      "insert_batch st batch w
         = (None, w\<lparr>db_calls := Suc (db_calls w),
                     db_trace := db_trace w @ [ExecuteMany (map prepare batch), Rollback]\<rparr>)"
  | (escaped) "map prepare batch \<noteq> []"
      "st (db_calls w) (table w) (map prepare batch) = RollbackRaises"
      "insert_batch st batch w
         = (Some OperationalError,
            w\<lparr>db_calls := Suc (db_calls w),
               db_trace := db_trace w @ [ExecuteMany (map prepare batch), RollbackError]\<rparr>)"
proof (cases "map prepare batch = []")
  case True
  with skipped show ?thesis by (simp add: insert_batch_def)
next
  case False
  show ?thesis
  proof (cases "st (db_calls w) (table w) (map prepare batch)")
    case InsertCommitted
    with False committed show ?thesis by (simp add: insert_batch_def Let_def)
  next
    case InsertRolledBack
    with False rolled_back show ?thesis by (simp add: insert_batch_def Let_def)
  next
    case RollbackRaises
    with False escaped show ?thesis by (simp add: insert_batch_def Let_def)
  qed
qed

lemma insert_batch_sent:
  "\<exists>more added. db_trace (snd (insert_batch st batch w)) = db_trace w @ more
     \<and> (\<forall>rows \<in> set (executed more). \<exists>rs. rows = map prepare rs \<and> set rs \<subseteq> set batch)
     \<and> table (snd (insert_batch st batch w)) = table w @ added
     \<and> set added \<subseteq> prepare ` set batch
     \<and> (\<forall>r \<in> set added. \<exists>n tbl rows. st n tbl rows = InsertCommitted \<and> r \<in> set rows)"
proof (cases rule: insert_batch_cases [of batch st w])
  case skipped
  then show ?thesis by simp
next
  case committed
  have "\<forall>r \<in> set (map prepare batch). \<exists>n tbl rows. st n tbl rows = InsertCommitted \<and> r \<in> set rows"
    using committed(2) by blast
  then show ?thesis
    unfolding committed(3)
    by (intro exI [of _ "[ExecuteMany (map prepare batch), Commit]"]
        exI [of _ "map prepare batch"]) auto
next
  case rolled_back
  show ?thesis
    unfolding rolled_back(3)
    by (intro exI [of _ "[ExecuteMany (map prepare batch), Rollback]"] exI [of _ "[]"]) auto
next
  case escaped
  show ?thesis
    unfolding escaped(3)
    by (intro exI [of _ "[ExecuteMany (map prepare batch), RollbackError]"] exI [of _ "[]"]) auto
qed

lemma insert_loop_step:
  obtains (stop) e w1 where
      "insert_batch st (slice recipes i bs) w = (Some e, w1)"
      "insert_loop st recipes bs (i # is) w = (Some e, w1)"
  | (go) w1 where
      "insert_batch st (slice recipes i bs) w = (None, w1)"
      "insert_loop st recipes bs (i # is) w = insert_loop st recipes bs is w1"
proof -
  obtain r w1 where m: "insert_batch st (slice recipes i bs) w = (r, w1)"
    by (cases "insert_batch st (slice recipes i bs) w")
  show thesis
  proof (cases r)
    case None
    with m go show ?thesis by simp
  next
    case (Some e)
    with m stop show ?thesis by simp
  qed
qed

lemma insert_loop_sent:
  "\<exists>more added. db_trace (snd (insert_loop st recipes bs is w)) = db_trace w @ more
     \<and> (\<forall>rows \<in> set (executed more). \<exists>rs. rows = map prepare rs \<and> set rs \<subseteq> set recipes)
     \<and> table (snd (insert_loop st recipes bs is w)) = table w @ added
     \<and> set added \<subseteq> prepare ` set recipes
     \<and> (\<forall>r \<in> set added. \<exists>n tbl rows. st n tbl rows = InsertCommitted \<and> r \<in> set rows)"
proof (induction "is" arbitrary: w)
  case Nil
  then show ?case by simp
next
  case (Cons i "is")
  have sub: "set (slice recipes i bs) \<subseteq> set recipes"
    unfolding slice_def by (meson set_take_subset set_drop_subset subset_trans)
  from insert_batch_sent [of st "slice recipes i bs" w] obtain m1 a1 where
    1: "db_trace (snd (insert_batch st (slice recipes i bs) w)) = db_trace w @ m1"
       "\<forall>rows \<in> set (executed m1). \<exists>rs. rows = map prepare rs \<and> set rs \<subseteq> set (slice recipes i bs)"
       "table (snd (insert_batch st (slice recipes i bs) w)) = table w @ a1"
       "set a1 \<subseteq> prepare ` set (slice recipes i bs)"
       "\<forall>r \<in> set a1. \<exists>n tbl rows. st n tbl rows = InsertCommitted \<and> r \<in> set rows"
    by blast
  have s1: "\<forall>rows \<in> set (executed m1). \<exists>rs. rows = map prepare rs \<and> set rs \<subseteq> set recipes"
    using 1(2) sub by blast
  have s2: "set a1 \<subseteq> prepare ` set recipes"
    using 1(4) sub by blast
  show ?case
  proof (cases rule: insert_loop_step [of st recipes i bs w "is"])
    case (stop e w1)
    with 1 s1 s2 show ?thesis by auto
  next
    case (go w1)
    from Cons.IH [of w1] obtain m2 a2 where
      2: "db_trace (snd (insert_loop st recipes bs is w1)) = db_trace w1 @ m2"
         "\<forall>rows \<in> set (executed m2). \<exists>rs. rows = map prepare rs \<and> set rs \<subseteq> set recipes"
         "table (snd (insert_loop st recipes bs is w1)) = table w1 @ a2"
         "set a2 \<subseteq> prepare ` set recipes"
         "\<forall>r \<in> set a2. \<exists>n tbl rows. st n tbl rows = InsertCommitted \<and> r \<in> set rows"
      by blast
    from go 1 have w1: "db_trace w1 = db_trace w @ m1" "table w1 = table w @ a1" by simp_all
    have t1: "\<forall>rows \<in> set (executed (m1 @ m2)). \<exists>rs. rows = map prepare rs \<and> set rs \<subseteq> set recipes"
      using s1 2(2) by (auto simp: executed_append)
    have t2: "set (a1 @ a2) \<subseteq> prepare ` set recipes"
      using s2 2(4) by auto
    have t3: "\<forall>r \<in> set (a1 @ a2). \<exists>n tbl rows. st n tbl rows = InsertCommitted \<and> r \<in> set rows"
      using 1(5) 2(5) by auto
    have d: "db_trace (snd (insert_loop st recipes bs (i # is) w)) = db_trace w @ (m1 @ m2)"
      "table (snd (insert_loop st recipes bs (i # is) w)) = table w @ (a1 @ a2)"
      unfolding go(2) by (simp_all add: 2(1) 2(3) w1)
    show ?thesis
      apply (rule exI [of _ "m1 @ m2"])
      apply (rule exI [of _ "a1 @ a2"])
      apply (intro conjI d t1 t2 t3)
      done
  qed
qed


lemma insert_loop_invariant:
  assumes "enforces_vector_768 st" and "\<forall>r \<in> set (table w). length (col_embedding r) = 768"
  shows "\<forall>r \<in> set (table (snd (insert_loop st recipes bs is w))). length (col_embedding r) = 768"
proof -
  from insert_loop_sent [of st recipes bs "is" w] obtain added where
    a: "table (snd (insert_loop st recipes bs is w)) = table w @ added"
       "\<forall>r \<in> set added. \<exists>n tbl rows. st n tbl rows = InsertCommitted \<and> r \<in> set rows"
    by blast
  from a(2) assms(1) have "\<forall>r \<in> set added. length (col_embedding r) = 768"
    unfolding enforces_vector_768_def by blast
  with assms(2) a(1) show ?thesis by auto
qed

text \<open>
  When no rollback raises, \<open>insert_recipes\<close> (with a positive batch size) raises nothing
  and sends every batch exactly once, in order: a failed insert is neither retried nor the
  end of the run. When moreover the \<open>n\<close>-th insert is committed if \<open>ok n\<close> and rolled back
  otherwise, the table gains the rows of exactly the batches that were committed; with a
  single failure, at the insert number \<open>f\<close>, it gains every batch before it and every
  batch after it.
\<close>

lemma insert_loop_rollbacks_succeed:
  assumes "0 < bs" and "\<forall>n tbl rows. st n tbl rows \<noteq> RollbackRaises"
  shows "\<forall>i \<in> set is. i < length recipes \<Longrightarrow>
     fst (insert_loop st recipes bs is w) = None
     \<and> (\<exists>more. db_trace (snd (insert_loop st recipes bs is w)) = db_trace w @ more
          \<and> executed more = map (\<lambda>i. map prepare (slice recipes i bs)) is)"
proof (induction "is" arbitrary: w)
  case Nil
  then show ?case by simp
next
  case (Cons i "is")
  from Cons.prems assms(1) have ne: "map prepare (slice recipes i bs) \<noteq> []"
    by (simp add: slice_def)
  from Cons.prems have rest: "\<forall>i \<in> set is. i < length recipes" by simp
  have "\<exists>w1 ev. insert_batch st (slice recipes i bs) w = (None, w1)
      \<and> db_trace w1 = db_trace w @ [ExecuteMany (map prepare (slice recipes i bs)), ev]
      \<and> (ev = Commit \<or> ev = Rollback)"
  proof (cases rule: insert_batch_cases [of "slice recipes i bs" st w])
    case skipped
    with ne show ?thesis by simp
  next
    case committed
    then show ?thesis by simp
  next
    case rolled_back
    then show ?thesis by simp
  next
    case escaped
    with assms(2) show ?thesis by simp
  qed
  then obtain w1 ev where
    1: "insert_batch st (slice recipes i bs) w = (None, w1)"
       "db_trace w1 = db_trace w @ [ExecuteMany (map prepare (slice recipes i bs)), ev]"
       "ev = Commit \<or> ev = Rollback"
    by blast
  from Cons.IH [OF rest, of w1] obtain more where
    2: "fst (insert_loop st recipes bs is w1) = None"
       "db_trace (snd (insert_loop st recipes bs is w1)) = db_trace w1 @ more"
       "executed more = map (\<lambda>i. map prepare (slice recipes i bs)) is"
    by blast
  have l: "insert_loop st recipes bs (i # is) w = insert_loop st recipes bs is w1"
    by (simp add: 1(1))
  have "executed ([ExecuteMany (map prepare (slice recipes i bs)), ev] @ more)
      = map (\<lambda>i. map prepare (slice recipes i bs)) (i # is)"
    using 2(3) 1(3) by (auto simp: executed_append)
  then show ?case
    unfolding l using 2(1) 2(2) 1(2)
    by (intro conjI exI [of _ "[ExecuteMany (map prepare (slice recipes i bs)), ev] @ more"]) simp_all
qed

lemma insert_loop_outcome:
  assumes "0 < bs"
    and "\<forall>n tbl rows. st n tbl rows = (if ok n then InsertCommitted else InsertRolledBack)"
  shows "\<forall>i \<in> set is. i < length recipes \<Longrightarrow>
     table (snd (insert_loop st recipes bs is w))
       = table w @ surviving ok (db_calls w) (map (\<lambda>i. map prepare (slice recipes i bs)) is)
   \<and> db_trace (snd (insert_loop st recipes bs is w))
       = db_trace w
         @ outcome_events ok (db_calls w) (map (\<lambda>i. map prepare (slice recipes i bs)) is)"
proof (induction "is" arbitrary: w)
  case Nil
  then show ?case by simp
next
  case (Cons i "is")
  from Cons.prems assms(1) have ne: "map prepare (slice recipes i bs) \<noteq> []"
    by (simp add: slice_def)
  from Cons.prems have rest: "\<forall>i \<in> set is. i < length recipes" by simp
  let ?b = "map prepare (slice recipes i bs)"
  have "\<exists>w1. insert_batch st (slice recipes i bs) w = (None, w1)
      \<and> table w1 = table w @ (if ok (db_calls w) then ?b else [])
      \<and> db_trace w1 = db_trace w @ [ExecuteMany ?b, if ok (db_calls w) then Commit else Rollback]
      \<and> db_calls w1 = Suc (db_calls w)"
    using ne assms(2) by (simp add: insert_batch_def Let_def)
  then obtain w1 where
    1: "insert_batch st (slice recipes i bs) w = (None, w1)"
       "table w1 = table w @ (if ok (db_calls w) then ?b else [])"
       "db_trace w1 = db_trace w @ [ExecuteMany ?b, if ok (db_calls w) then Commit else Rollback]"
       "db_calls w1 = Suc (db_calls w)"
    by blast
  have l: "insert_loop st recipes bs (i # is) w = insert_loop st recipes bs is w1"
    by (simp add: 1(1))
  from Cons.IH [OF rest, of w1] show ?case
    unfolding l by (simp add: 1(2) 1(3) 1(4))
qed

lemma surviving_all_ok:
  "\<forall>m \<ge> n. ok m \<Longrightarrow> surviving ok n bs = concat bs"
proof (induction bs arbitrary: n)
  case Nil
  then show ?case by simp
next
  case (Cons b bs)
  from Cons.prems have "\<forall>m \<ge> Suc n. ok m" by simp
  from Cons.IH [OF this] Cons.prems show ?case by simp
qed

lemma surviving_one_failure:
  "surviving (\<lambda>n. n \<noteq> c + f) c bs = concat (take f bs) @ concat (drop (Suc f) bs)"
proof (induction bs arbitrary: c f)
  case Nil
  then show ?case by simp
next
  case (Cons b bs)
  show ?case
  proof (cases f)
    case 0
    have "surviving (\<lambda>n. n \<noteq> c) (Suc c) bs = concat bs"
      by (rule surviving_all_ok) simp
    with 0 show ?thesis by simp
  next
    case (Suc g)
    have "(\<lambda>n. n \<noteq> c + Suc g) = (\<lambda>n. n \<noteq> Suc c + g)" by auto
    with Cons.IH [of "Suc c" g] Suc show ?thesis by simp
  qed
qed

lemma insert_recipes_rollbacks_succeed:
  assumes "0 < bs" and "\<forall>n tbl rows. st n tbl rows \<noteq> RollbackRaises"
  shows "fst (insert_recipes st recipes bs w) = None
     \<and> executed (new_db_events w (snd (insert_recipes st recipes bs w)))
         = prepared_batches recipes bs
     \<and> ((\<forall>n tbl rows. st n tbl rows = (if ok n then InsertCommitted else InsertRolledBack)) \<longrightarrow>
          db_trace (snd (insert_recipes st recipes bs w))
            = db_trace w @ outcome_events ok (db_calls w) (prepared_batches recipes bs)
        \<and> table (snd (insert_recipes st recipes bs w))
            = table w @ surviving ok (db_calls w) (prepared_batches recipes bs)
        \<and> (ok = (\<lambda>n. n \<noteq> db_calls w + f) \<longrightarrow>
             table (snd (insert_recipes st recipes bs w))
               = table w @ concat (take f (prepared_batches recipes bs))
                         @ concat (drop (Suc f) (prepared_batches recipes bs))))"
proof -
  let ?is = "py_range 0 (length recipes) bs"
  have r: "insert_recipes st recipes bs w = insert_loop st recipes bs ?is w"
    using assms(1) by (simp add: insert_recipes_def)
  have range: "\<forall>i \<in> set ?is. i < length recipes"
    using assms(1) by (auto simp: py_range_set)
  from insert_loop_rollbacks_succeed [OF assms range, of w] obtain more where
    n: "fst (insert_loop st recipes bs ?is w) = None"
    and "db_trace (snd (insert_loop st recipes bs ?is w)) = db_trace w @ more"
      "executed more = prepared_batches recipes bs"
    by (auto simp: prepared_batches_def)
  then have x: "executed (new_db_events w (snd (insert_loop st recipes bs ?is w)))
      = prepared_batches recipes bs"
    by (simp add: new_db_events_def)
  have o: "db_trace (snd (insert_loop st recipes bs ?is w))
            = db_trace w @ outcome_events ok (db_calls w) (prepared_batches recipes bs)
        \<and> table (snd (insert_loop st recipes bs ?is w))
            = table w @ surviving ok (db_calls w) (prepared_batches recipes bs)
        \<and> (ok = (\<lambda>n. n \<noteq> db_calls w + f) \<longrightarrow>
             table (snd (insert_loop st recipes bs ?is w))
               = table w @ concat (take f (prepared_batches recipes bs))
                         @ concat (drop (Suc f) (prepared_batches recipes bs)))"
    if st: "\<forall>n tbl rows. st n tbl rows = (if ok n then InsertCommitted else InsertRolledBack)"
  proof -
    from insert_loop_outcome [OF assms(1) st range, of w]
    have t: "table (snd (insert_loop st recipes bs ?is w))
          = table w @ surviving ok (db_calls w) (prepared_batches recipes bs)"
      and e: "db_trace (snd (insert_loop st recipes bs ?is w))
         = db_trace w @ outcome_events ok (db_calls w) (prepared_batches recipes bs)"
      by (simp_all add: prepared_batches_def)
    from t have "ok = (\<lambda>n. n \<noteq> db_calls w + f) \<longrightarrow>
          table (snd (insert_loop st recipes bs ?is w))
            = table w @ concat (take f (prepared_batches recipes bs))
                      @ concat (drop (Suc f) (prepared_batches recipes bs))"
      by (auto simp: surviving_one_failure)
    with t e show ?thesis by blast
  qed
  from n x o show ?thesis unfolding r by blast
qed

text \<open>
  An instance: of three batches the second is rolled back; nothing is raised, all three
  are sent, and the table gains the first and the third.
\<close>

lemma insert_recipes_second_fails:
  "fst (insert_recipes second_fails
          [plain_recipe 0 [], plain_recipe 1 [], plain_recipe 2 []] 1 empty_db) = None
   \<and> table (snd (insert_recipes second_fails
          [plain_recipe 0 [], plain_recipe 1 [], plain_recipe 2 []] 1 empty_db))
     = [prepare (plain_recipe 0 []), prepare (plain_recipe 2 [])]
   \<and> executed (db_trace (snd (insert_recipes second_fails
          [plain_recipe 0 [], plain_recipe 1 [], plain_recipe 2 []] 1 empty_db)))
     = [[prepare (plain_recipe 0 [])], [prepare (plain_recipe 1 [])],
        [prepare (plain_recipe 2 [])]]"
proof -
  let ?rs = "[plain_recipe 0 [], plain_recipe 1 [], plain_recipe 2 []]"
  have h1: "(0::nat) < 1" by simp
  have h2: "\<forall>n tbl rows. second_fails n tbl rows \<noteq> RollbackRaises"
    by (simp add: second_fails_def)
  have h3: "\<forall>n tbl rows. second_fails n tbl rows
      = (if n \<noteq> db_calls empty_db + 1 then InsertCommitted else InsertRolledBack)"
    by (simp add: second_fails_def empty_db_def)
  have b: "prepared_batches ?rs 1
      = [[prepare (plain_recipe 0 [])], [prepare (plain_recipe 1 [])], [prepare (plain_recipe 2 [])]]"
    by (simp add: prepared_batches_def py_range_def slice_def upt_conv_Cons)
  from insert_recipes_rollbacks_succeed
    [where bs = 1 and st = second_fails and ok = "\<lambda>n. n \<noteq> db_calls empty_db + 1"
       and w = empty_db and recipes = ?rs and f = 1, OF h1 h2] h3
  have n: "fst (insert_recipes second_fails ?rs 1 empty_db) = None"
    and x: "executed (new_db_events empty_db (snd (insert_recipes second_fails ?rs 1 empty_db)))
         = prepared_batches ?rs 1"
    and t: "table (snd (insert_recipes second_fails ?rs 1 empty_db))
        = table empty_db @ concat (take 1 (prepared_batches ?rs 1))
                         @ concat (drop (Suc 1) (prepared_batches ?rs 1))"
    by blast+
  from t have t': "table (snd (insert_recipes second_fails ?rs 1 empty_db))
      = [prepare (plain_recipe 0 []), prepare (plain_recipe 2 [])]"
    unfolding b by (simp add: empty_db_def)
  from x have x': "executed (db_trace (snd (insert_recipes second_fails ?rs 1 empty_db)))
      = [[prepare (plain_recipe 0 [])], [prepare (plain_recipe 1 [])], [prepare (plain_recipe 2 [])]]"
    unfolding b by (simp add: new_db_events_def empty_db_def)
  from n t' x' show ?thesis by (intro conjI)
qed

text \<open>
  Claim C6 at a store that loses its connection during the first insert: \<open>executemany\<close>
  raises, and so does the \<open>rollback\<close> that the handler calls unguarded. The exception leaves
  \<open>insert_recipes\<close> after the first of two batches: the run is aborted, and the second
  batch, which the store would have committed, is never sent.
\<close>

theorem insert_recipes_rollback_raises_aborts:
  "insert_recipes connection_lost [plain_recipe 0 [], plain_recipe 1 []] 1 empty_db
     = (Some OperationalError,
        \<lparr>table = [], db_calls = 1,
         db_trace = [ExecuteMany [prepare (plain_recipe 0 [])], RollbackError]\<rparr>)
   \<and> prepared_batches [plain_recipe 0 [], plain_recipe 1 []] 1
     = [[prepare (plain_recipe 0 [])], [prepare (plain_recipe 1 [])]]
   \<and> connection_lost 1 [] [prepare (plain_recipe 1 [])] = InsertCommitted"
  by (simp add: insert_recipes_def prepared_batches_def py_range_def upt_conv_Cons slice_def
      insert_batch_def connection_lost_def empty_db_def Let_def)




section \<open>Properties of the checkpoints of a run\<close>

lemma good_bodies_append:
  "good_bodies api n (xs @ ys) = good_bodies api n xs @ good_bodies api (n + length xs) ys"
  by (induction xs arbitrary: n) simp_all

lemma py_range_length_iff:
  assumes "0 < n"
  shows "p < length (py_range s stop n) \<longleftrightarrow> s + p * n < stop"
proof -
  have "p < (stop - s + n - 1) div n \<longleftrightarrow> Suc p \<le> (stop - s + n - 1) div n" by arith
  also have "\<dots> \<longleftrightarrow> Suc p * n \<le> stop - s + n - 1"
    using assms by (simp only: less_eq_div_iff_mult_less_eq)
  also have "\<dots> \<longleftrightarrow> p * n + n \<le> stop - s + n - 1" by (simp add: add.commute)
  also have "\<dots> \<longleftrightarrow> s + p * n < stop" using assms by arith
  finally show ?thesis by (simp add: py_range_def)
qed

lemma py_range_nth:
  "p < length (py_range s stop n) \<Longrightarrow> py_range s stop n ! p = s + p * n"
  by (simp add: py_range_def)

lemma concat_slices_take:
  assumes "0 < n"
  shows "j \<le> length (py_range s stop n)
    \<Longrightarrow> concat (map (\<lambda>i. slice xs i n) (take j (py_range s stop n))) = take (j * n) (drop s xs)"
proof (induction j arbitrary: s)
  case 0
  then show ?case by simp
next
  case (Suc j)
  from Suc.prems have "0 < length (py_range s stop n)" by linarith
  then have lt: "s < stop"
    using py_range_length_iff [OF assms, of 0 s stop] by simp
  then have r: "py_range s stop n = s # py_range (s + n) stop n"
    by (simp add: py_range_rec [OF assms, of s stop])
  with Suc.prems have "j \<le> length (py_range (s + n) stop n)" by simp
  from Suc.IH [OF this]
  have "concat (map (\<lambda>i. slice xs i n) (take j (py_range (s + n) stop n)))
      = take (j * n) (drop n (drop s xs))"
    by (simp add: add.commute)
  then have "concat (map (\<lambda>i. slice xs i n) (take (Suc j) (py_range s stop n)))
      = take n (drop s xs) @ take (j * n) (drop n (drop s xs))"
    by (simp add: r slice_def)
  also have "\<dots> = take (n + j * n) (drop s xs)"
    by (simp only: take_add)
  finally show ?case by simp
qed

lemma attempts_loop_step:
  obtains (retry) d where
      "\<And>rest. good_bodies api (calls w) (texts # rest) = good_bodies api (Suc (calls w)) rest"
      "attempts_loop api texts mr (a # as) w
         = attempts_loop api texts mr as (sleep d (post texts w))"
  | (raised) e where
      "\<And>rest. good_bodies api (calls w) (texts # rest) = good_bodies api (Suc (calls w)) rest"
      "attempts_loop api texts mr (a # as) w = (Inl e, post texts w)"
  | (returned) b where
      "\<And>rest. good_bodies api (calls w) (texts # rest) = b # good_bodies api (Suc (calls w)) rest"
      "attempts_loop api texts mr (a # as) w = (Inr (Some b), post texts w)"
proof (cases "api (calls w) texts")
  case NetworkFailure
  show ?thesis
  proof (cases "a = mr - 1")
    case True
    with NetworkFailure raised [of ConnectionError] show ?thesis by (simp add: Let_def)
  next
    case False
    with NetworkFailure retry [of "10 * (a + 1)"] show ?thesis by (simp add: Let_def)
  qed
next
  case (Response s b)
  consider "s = 503" | "s = 429" | "s = 500"
    | "s \<notin> {503, 429, 500}" "400 \<le> s \<and> s < 600" "a = mr - 1"
    | "s \<notin> {503, 429, 500}" "400 \<le> s \<and> s < 600" "a \<noteq> mr - 1"
    | "\<not> (400 \<le> s \<and> s < 600)"
    by blast
  then show ?thesis
  proof cases
    case 1
    with Response retry [of 20] show ?thesis by (simp add: Let_def)
  next
    case 2
    with Response retry [of 30] show ?thesis by (simp add: Let_def)
  next
    case 3
    with Response retry [of "30 * (a + 1)"] show ?thesis by (simp add: Let_def)
  next
    case 4
    with Response raised [of "HTTPError s"] show ?thesis by (simp add: Let_def)
  next
    case 5
    with Response retry [of "10 * (a + 1)"] show ?thesis by (simp add: Let_def)
  next
    case 6
    then have n: "s \<noteq> 503" "s \<noteq> 429" "s \<noteq> 500" by auto
    from 6 have c: "(400 \<le> s \<and> s < 600) = False" by simp
    from Response returned [of b] show ?thesis by (simp add: Let_def n c)
  qed
qed

lemma attempts_loop_received:
  "attempts_loop api texts mr as w = (r, w')
   \<Longrightarrow> \<exists>k more. calls w' = calls w + k
        \<and> posted (trace w') = posted (trace w) @ replicate k texts
        \<and> trace w' = trace w @ more
        \<and> good_bodies api (calls w) (replicate k texts)
            = (case r of Inr (Some body) \<Rightarrow> [body] | _ \<Rightarrow> [])"
proof (induction as arbitrary: w)
  case Nil
  then show ?case by (intro exI [of _ 0]) auto
next
  case (Cons a as)
  show ?case
  proof (cases rule: attempts_loop_step [of api w texts mr a as])
    case (retry d)
    with Cons.prems have "attempts_loop api texts mr as (sleep d (post texts w)) = (r, w')"
      by simp
    from Cons.IH [OF this] obtain k more where
      k: "calls w' = calls (sleep d (post texts w)) + k"
         "posted (trace w') = posted (trace (sleep d (post texts w))) @ replicate k texts"
         "trace w' = trace (sleep d (post texts w)) @ more"
         "good_bodies api (calls (sleep d (post texts w))) (replicate k texts)
            = (case r of Inr (Some body) \<Rightarrow> [body] | _ \<Rightarrow> [])"
      by blast
    show ?thesis
      apply (rule exI [of _ "Suc k"])
      apply (rule exI [of _ "[Post texts, Sleep d] @ more"])
      using k retry(1)
      apply (simp add: calls_sleep_post trace_sleep_post posted_append)
      done
  next
    case (raised e)
    with Cons.prems have "r = Inl e" "w' = post texts w" by simp_all
    then show ?thesis
      apply (intro exI [of _ "Suc 0"] exI [of _ "[Post texts]"])
      using raised(1) [of "[]"]
      apply (simp add: post_def posted_append)
      done
  next
    case (returned b)
    with Cons.prems have "r = Inr (Some b)" "w' = post texts w" by simp_all
    then show ?thesis
      apply (intro exI [of _ "Suc 0"] exI [of _ "[Post texts]"])
      using returned(1) [of "[]"]
      apply (simp add: post_def posted_append)
      done
  qed
qed


lemma make_api_request_received:
  "make_api_request api texts mr w = (r, w')
   \<Longrightarrow> \<exists>ps more. calls w' = calls w + length ps
        \<and> posted (trace w') = posted (trace w) @ ps
        \<and> trace w' = trace w @ more
        \<and> good_bodies api (calls w) ps = (case r of Inr (Some body) \<Rightarrow> [body] | _ \<Rightarrow> [])"
proof -
  assume "make_api_request api texts mr w = (r, w')"
  then have "attempts_loop api texts mr [0..<mr] w = (r, w')"
    by (simp add: make_api_request_def)
  from attempts_loop_received [OF this] obtain k more where
    "calls w' = calls w + k" "posted (trace w') = posted (trace w) @ replicate k texts"
    "trace w' = trace w @ more"
    "good_bodies api (calls w) (replicate k texts)
       = (case r of Inr (Some body) \<Rightarrow> [body] | _ \<Rightarrow> [])"
    by blast
  then show ?thesis
    by (intro exI [of _ "replicate k texts"] exI [of _ more]) simp
qed

lemma process_batch_received_ok:
  assumes "process_batch api texts metas bs i acc w = (Inr acc', w')"
  shows "\<exists>ps more body. calls w' = calls w + length ps
     \<and> posted (trace w') = posted (trace w) @ ps
     \<and> trace w' = trace w @ more
     \<and> good_bodies api (calls w) ps = [body]
     \<and> acc' = (fst acc @ body, snd acc @ slice metas i bs)
     \<and> ((i div bs) mod 5 = 0 \<longrightarrow>
          SaveCheckpoint \<lparr>batch_index = i div bs, embeddings = fst acc',
                          metadata = snd acc'\<rparr> \<in> set more)"
proof (cases rule: process_batch_cases [of api texts i bs w metas acc])
  case (failed e w1)
  with assms show ?thesis by simp
next
  case (none w1)
  with assms show ?thesis by simp
next
  case (ok body w1)
  from make_api_request_received [OF ok(1)] obtain ps more where
    m: "calls w1 = calls w + length ps" "posted (trace w1) = posted (trace w) @ ps"
       "trace w1 = trace w @ more" "good_bodies api (calls w) ps = [body]"
    by auto
  let ?acc' = "(fst acc @ body, snd acc @ slice metas i bs)"
  let ?c = "\<lparr>batch_index = i div bs, embeddings = fst ?acc', metadata = snd ?acc'\<rparr>"
  let ?more = "more @ (if (i div bs) mod 5 = 0 then [SaveCheckpoint ?c] else []) @ [Sleep 1]"
  from ok(2) assms have r: "acc' = ?acc'"
    "w' = sleep 1 (if (i div bs) mod 5 = 0
                     then save_checkpoint (i div bs) (fst acc @ body)
                            (snd acc @ slice metas i bs) w1
                     else w1)"
    by simp_all
  show ?thesis
    apply (rule exI [of _ ps])
    apply (rule exI [of _ ?more])
    apply (rule exI [of _ body])
    using m r
    apply (simp add: trace_save_checkpoint trace_sleep posted_append save_checkpoint_def
        sleep_def Let_def)
    done
qed

lemma process_batch_received_failed:
  assumes "process_batch api texts metas bs i acc w = (Inl e, w')"
  shows "\<exists>ps more. calls w' = calls w + length ps
     \<and> posted (trace w') = posted (trace w) @ ps
     \<and> trace w' = trace w @ more
     \<and> good_bodies api (calls w) ps = []
     \<and> more \<noteq> []
     \<and> last more = SaveCheckpoint \<lparr>batch_index = i div bs, embeddings = fst acc,
                                    metadata = snd acc\<rparr>
     \<and> checkpoint_file w' = Some \<lparr>batch_index = i div bs, embeddings = fst acc,
                                    metadata = snd acc\<rparr>"
proof -
  let ?c = "\<lparr>batch_index = i div bs, embeddings = fst acc, metadata = snd acc\<rparr>"
  have "\<exists>r0 w1. make_api_request api (slice texts i bs) 5 w = (r0, w1)
      \<and> (case r0 of Inr (Some body) \<Rightarrow> [body] | _ \<Rightarrow> []) = []
      \<and> w' = save_checkpoint (i div bs) (fst acc) (snd acc) w1"
  proof (cases rule: process_batch_cases [of api texts i bs w metas acc])
    case (failed e1 w1)
    with assms show ?thesis by simp
  next
    case (none w1)
    with assms show ?thesis by simp
  next
    case (ok body w1)
    with assms show ?thesis by simp
  qed
  then obtain r0 w1 where
    f: "make_api_request api (slice texts i bs) 5 w = (r0, w1)"
       "(case r0 of Inr (Some body) \<Rightarrow> [body] | _ \<Rightarrow> []) = []"
       "w' = save_checkpoint (i div bs) (fst acc) (snd acc) w1"
    by blast
  from make_api_request_received [OF f(1)] f(2) obtain ps more where
    m: "calls w1 = calls w + length ps" "posted (trace w1) = posted (trace w) @ ps"
       "trace w1 = trace w @ more" "good_bodies api (calls w) ps = []"
    by auto
  show ?thesis
    apply (rule exI [of _ ps])
    apply (rule exI [of _ "more @ [SaveCheckpoint ?c]"])
    using m f(3)
    apply (simp add: trace_save_checkpoint posted_append save_checkpoint_def Let_def)
    done
qed

lemma batch_loop_received_ok:
  "batch_loop api texts metas bs is acc w = (Inr acc', w')
   \<Longrightarrow> \<exists>ps more. calls w' = calls w + length ps
     \<and> posted (trace w') = posted (trace w) @ ps
     \<and> trace w' = trace w @ more
     \<and> length (good_bodies api (calls w) ps) = length is
     \<and> acc' = (fst acc @ concat (good_bodies api (calls w) ps),
               snd acc @ concat (map (\<lambda>i. slice metas i bs) is))
     \<and> (\<forall>p < length is. (is ! p div bs) mod 5 = 0 \<longrightarrow>
           SaveCheckpoint
             \<lparr>batch_index = is ! p div bs,
              embeddings = fst acc @ concat (take (Suc p) (good_bodies api (calls w) ps)),
              metadata = snd acc @ concat (map (\<lambda>i. slice metas i bs) (take (Suc p) is))\<rparr>
           \<in> set more)"
proof (induction "is" arbitrary: acc w)
  case Nil
  then show ?case
    by (intro exI [of _ "[]"]) simp
next
  case (Cons i "is")
  show ?case
  proof (cases rule: batch_loop_step [of api texts metas bs i acc w "is"])
    case (stop e1 w1)
    with Cons.prems show ?thesis by simp
  next
    case (go acc1 w1)
    with Cons.prems have rest: "batch_loop api texts metas bs is acc1 w1 = (Inr acc', w')"
      by simp
    from process_batch_received_ok [OF go(1)] obtain ps1 more1 body where
      m1: "calls w1 = calls w + length ps1" "posted (trace w1) = posted (trace w) @ ps1"
          "trace w1 = trace w @ more1" "good_bodies api (calls w) ps1 = [body]"
          "acc1 = (fst acc @ body, snd acc @ slice metas i bs)"
      and s1: "(i div bs) mod 5 = 0 \<longrightarrow>
               SaveCheckpoint \<lparr>batch_index = i div bs, embeddings = fst acc1,
                               metadata = snd acc1\<rparr> \<in> set more1"
      by (elim exE conjE)
    from Cons.IH [OF rest] obtain ps2 more2 where
      m2: "calls w' = calls w1 + length ps2" "posted (trace w') = posted (trace w1) @ ps2"
          "trace w' = trace w1 @ more2"
      and l: "length (good_bodies api (calls w1) ps2) = length is"
      and a: "acc' = (fst acc1 @ concat (good_bodies api (calls w1) ps2),
                    snd acc1 @ concat (map (\<lambda>i. slice metas i bs) is))"
      and sv: "\<forall>p < length is. (is ! p div bs) mod 5 = 0 \<longrightarrow>
                SaveCheckpoint
                  \<lparr>batch_index = is ! p div bs,
                   embeddings = fst acc1 @ concat (take (Suc p) (good_bodies api (calls w1) ps2)),
                   metadata = snd acc1 @ concat (map (\<lambda>i. slice metas i bs) (take (Suc p) is))\<rparr>
                \<in> set more2"
      by (elim exE conjE)
    have g: "good_bodies api (calls w) (ps1 @ ps2) = body # good_bodies api (calls w1) ps2"
      by (simp add: good_bodies_append m1(4) m1(1))
    have c1: "calls w' = calls w + length (ps1 @ ps2)"
      by (simp add: m1(1) m2(1))
    have c2: "posted (trace w') = posted (trace w) @ (ps1 @ ps2)"
      by (simp only: m2(2) m1(2) append_assoc)
    have c3: "trace w' = trace w @ (more1 @ more2)"
      by (simp only: m2(3) m1(3) append_assoc)
    note c = c1 c2 c3
    have saves: "\<forall>p < length (i # is). ((i # is) ! p div bs) mod 5 = 0 \<longrightarrow>
                SaveCheckpoint
                  \<lparr>batch_index = (i # is) ! p div bs,
                   embeddings = fst acc
                     @ concat (take (Suc p) (good_bodies api (calls w) (ps1 @ ps2))),
                   metadata = snd acc
                     @ concat (map (\<lambda>i. slice metas i bs) (take (Suc p) (i # is)))\<rparr>
                \<in> set (more1 @ more2)"
    proof (intro allI impI)
      fix p assume p: "p < length (i # is)" and md: "((i # is) ! p div bs) mod 5 = 0"
      show "SaveCheckpoint
                  \<lparr>batch_index = (i # is) ! p div bs,
                   embeddings = fst acc
                     @ concat (take (Suc p) (good_bodies api (calls w) (ps1 @ ps2))),
                   metadata = snd acc
                     @ concat (map (\<lambda>i. slice metas i bs) (take (Suc p) (i # is)))\<rparr>
                \<in> set (more1 @ more2)"
      proof (cases p)
        case 0
        from md 0 have "(i div bs) mod 5 = 0" by simp
        then have "SaveCheckpoint \<lparr>batch_index = i div bs, embeddings = fst acc1,
                               metadata = snd acc1\<rparr> \<in> set more1"
          by (rule s1 [rule_format])
        then show ?thesis unfolding g 0 by (simp add: m1(5))
      next
        case (Suc q)
        with p md have q: "q < length is" "(is ! q div bs) mod 5 = 0" by simp_all
        have "SaveCheckpoint
                  \<lparr>batch_index = is ! q div bs,
                   embeddings = fst acc1 @ concat (take (Suc q) (good_bodies api (calls w1) ps2)),
                   metadata = snd acc1 @ concat (map (\<lambda>i. slice metas i bs) (take (Suc q) is))\<rparr>
                \<in> set more2"
          by (rule sv [rule_format, OF q])
        then show ?thesis unfolding g Suc by (simp add: m1(5))
      qed
    qed
    have l': "length (good_bodies api (calls w) (ps1 @ ps2)) = length (i # is)"
      unfolding g using l by simp
    have a': "acc' = (fst acc @ concat (good_bodies api (calls w) (ps1 @ ps2)),
                    snd acc @ concat (map (\<lambda>i. slice metas i bs) (i # is)))"
      unfolding g a by (simp add: m1(5))
    show ?thesis
      apply (rule exI [of _ "ps1 @ ps2"])
      apply (rule exI [of _ "more1 @ more2"])
      apply (intro conjI c l' a' saves)
      done
  qed
qed


lemma batch_loop_received_failed:
  "batch_loop api texts metas bs is acc w = (Inl e, w')
   \<Longrightarrow> \<exists>ps more. calls w' = calls w + length ps
     \<and> posted (trace w') = posted (trace w) @ ps
     \<and> trace w' = trace w @ more
     \<and> length (good_bodies api (calls w) ps) < length is
     \<and> more \<noteq> []
     \<and> last more = SaveCheckpoint
          \<lparr>batch_index = is ! length (good_bodies api (calls w) ps) div bs,
           embeddings = fst acc @ concat (good_bodies api (calls w) ps),
           metadata = snd acc @ concat (map (\<lambda>i. slice metas i bs)
                        (take (length (good_bodies api (calls w) ps)) is))\<rparr>
     \<and> checkpoint_file w' = Some
          \<lparr>batch_index = is ! length (good_bodies api (calls w) ps) div bs,
           embeddings = fst acc @ concat (good_bodies api (calls w) ps),
           metadata = snd acc @ concat (map (\<lambda>i. slice metas i bs)
                        (take (length (good_bodies api (calls w) ps)) is))\<rparr>"
proof (induction "is" arbitrary: acc w)
  case Nil
  then show ?case by simp
next
  case (Cons i "is")
  show ?case
  proof (cases rule: batch_loop_step [of api texts metas bs i acc w "is"])
    case (stop e1 w1)
    with Cons.prems have "process_batch api texts metas bs i acc w = (Inl e, w')" by simp
    from process_batch_received_failed [OF this] obtain ps more where
      m: "calls w' = calls w + length ps" "posted (trace w') = posted (trace w) @ ps"
         "trace w' = trace w @ more" "good_bodies api (calls w) ps = []" "more \<noteq> []"
         "last more = SaveCheckpoint \<lparr>batch_index = i div bs, embeddings = fst acc,
                                       metadata = snd acc\<rparr>"
         "checkpoint_file w' = Some \<lparr>batch_index = i div bs, embeddings = fst acc,
                                       metadata = snd acc\<rparr>"
      by (elim exE conjE)
    have z: "length (good_bodies api (calls w) ps) < length (i # is)"
      "(i # is) ! length (good_bodies api (calls w) ps) = i"
      "concat (good_bodies api (calls w) ps) = []"
      "take (length (good_bodies api (calls w) ps)) (i # is) = []"
      by (simp_all add: m(4))
    show ?thesis
      apply (rule exI [of _ ps])
      apply (rule exI [of _ more])
      unfolding z
      apply (intro conjI m(1) m(2) m(3) z(1) m(5))
       apply (simp add: m(6))
      apply (simp add: m(7))
      done
  next
    case (go acc1 w1)
    with Cons.prems have rest: "batch_loop api texts metas bs is acc1 w1 = (Inl e, w')"
      by simp
    from process_batch_received_ok [OF go(1)] obtain ps1 more1 body where
      m1: "calls w1 = calls w + length ps1" "posted (trace w1) = posted (trace w) @ ps1"
          "trace w1 = trace w @ more1" "good_bodies api (calls w) ps1 = [body]"
          "acc1 = (fst acc @ body, snd acc @ slice metas i bs)"
      by (elim exE conjE)
    let ?g2 = "good_bodies api (calls w1)"
    from Cons.IH [OF rest] obtain ps2 more2 where
      m2: "calls w' = calls w1 + length ps2" "posted (trace w') = posted (trace w1) @ ps2"
          "trace w' = trace w1 @ more2"
      and l: "length (?g2 ps2) < length is"
      and ne: "more2 \<noteq> []"
      and la: "last more2 = SaveCheckpoint
          \<lparr>batch_index = is ! length (?g2 ps2) div bs,
           embeddings = fst acc1 @ concat (?g2 ps2),
           metadata = snd acc1 @ concat (map (\<lambda>i. slice metas i bs)
                        (take (length (?g2 ps2)) is))\<rparr>"
      and cf: "checkpoint_file w' = Some
          \<lparr>batch_index = is ! length (?g2 ps2) div bs,
           embeddings = fst acc1 @ concat (?g2 ps2),
           metadata = snd acc1 @ concat (map (\<lambda>i. slice metas i bs)
                        (take (length (?g2 ps2)) is))\<rparr>"
      by (elim exE conjE)
    have g: "good_bodies api (calls w) (ps1 @ ps2) = body # ?g2 ps2"
      by (simp add: good_bodies_append m1(4) m1(1))
    have c1: "calls w' = calls w + length (ps1 @ ps2)"
      by (simp add: m1(1) m2(1))
    have c2: "posted (trace w') = posted (trace w) @ (ps1 @ ps2)"
      by (simp only: m2(2) m1(2) append_assoc)
    have c3: "trace w' = trace w @ (more1 @ more2)"
      by (simp only: m2(3) m1(3) append_assoc)
    have l': "length (good_bodies api (calls w) (ps1 @ ps2)) < length (i # is)"
      unfolding g using l by simp
    have ne': "more1 @ more2 \<noteq> []" using ne by simp
    have la': "last (more1 @ more2) = SaveCheckpoint
          \<lparr>batch_index = (i # is) ! length (good_bodies api (calls w) (ps1 @ ps2)) div bs,
           embeddings = fst acc @ concat (good_bodies api (calls w) (ps1 @ ps2)),
           metadata = snd acc @ concat (map (\<lambda>i. slice metas i bs)
                        (take (length (good_bodies api (calls w) (ps1 @ ps2))) (i # is)))\<rparr>"
      unfolding g using ne la by (simp add: m1(5))
    have cf': "checkpoint_file w' = Some
          \<lparr>batch_index = (i # is) ! length (good_bodies api (calls w) (ps1 @ ps2)) div bs,
           embeddings = fst acc @ concat (good_bodies api (calls w) (ps1 @ ps2)),
           metadata = snd acc @ concat (map (\<lambda>i. slice metas i bs)
                        (take (length (good_bodies api (calls w) (ps1 @ ps2))) (i # is)))\<rparr>"
      unfolding g using cf by (simp add: m1(5))
    show ?thesis
      apply (rule exI [of _ "ps1 @ ps2"])
      apply (rule exI [of _ "more1 @ more2"])
      apply (intro conjI c1 c2 c3 l' ne' la' cf')
      done
  qed
qed


text \<open>
  Claim C5. In the batch loop, a batch that succeeds at a batch index that is a multiple
  of 5 leaves on disk a checkpoint with that index and all embeddings and metadata
  accumulated so far, this batch included. A batch that fails saves, as its last effect
  before the error is passed on, a checkpoint with its index and everything accumulated
  before it. For a whole run that starts from the checkpoint \<open>(sb, E0, M0)\<close>, with
  \<open>received\<close> the bodies that the API delivered during the run: when the run returns, it
  returns \<open>E0\<close> followed by everything received, and for every batch index \<open>k\<close> of the run
  that is a multiple of 5 it saved a checkpoint with index \<open>k\<close>, with \<open>E0\<close> followed by
  the bodies of the batches up to \<open>k\<close>, and with \<open>M0\<close> followed by their metadata. When the
  run raises from a batch, its last effect is the save of the checkpoint that is then on
  disk: it has the index of the failed batch, \<open>E0\<close> followed by everything received, and
  \<open>M0\<close> followed by the metadata of the batches done.
\<close>

theorem checkpoint_persisted:
  "(process_batch api texts metas bs i acc w = (Inr acc', w') \<and> (i div bs) mod 5 = 0 \<longrightarrow>
      checkpoint_file w'
        = Some \<lparr>batch_index = i div bs, embeddings = fst acc', metadata = snd acc'\<rparr>
      \<and> (\<exists>body. fst acc' = fst acc @ body) \<and> snd acc' = snd acc @ slice metas i bs)
 \<and> (process_batch api texts metas bs i acc w = (Inl e, w') \<longrightarrow>
      checkpoint_file w'
        = Some \<lparr>batch_index = i div bs, embeddings = fst acc, metadata = snd acc\<rparr>
      \<and> last (trace w')
        = SaveCheckpoint \<lparr>batch_index = i div bs, embeddings = fst acc, metadata = snd acc\<rparr>)
 \<and> (0 < bs \<and> load_checkpoint w = (sb, E0, M0)
      \<and> generate_embeddings api texts metas bs w = (Inr r, w') \<longrightarrow>
      r = (E0 @ concat (received api w w'),
           M0 @ take (length (received api w w') * bs) (drop (sb * bs) metas))
      \<and> (\<forall>k. sb \<le> k \<and> k * bs < length texts \<and> k mod 5 = 0 \<longrightarrow>
            SaveCheckpoint
              \<lparr>batch_index = k,
               embeddings = E0 @ concat (take (Suc (k - sb)) (received api w w')),
               metadata = M0 @ take (Suc (k - sb) * bs) (drop (sb * bs) metas)\<rparr>
            \<in> set (new_events w w')))
 \<and> (0 < bs \<and> load_checkpoint w = (sb, E0, M0)
      \<and> generate_embeddings api texts metas bs w = (Inl e, w') \<longrightarrow>
      checkpoint_file w'
        = Some \<lparr>batch_index = sb + length (received api w w'),
                embeddings = E0 @ concat (received api w w'),
                metadata = M0 @ take (length (received api w w') * bs) (drop (sb * bs) metas)\<rparr>
      \<and> last (trace w')
        = SaveCheckpoint
            \<lparr>batch_index = sb + length (received api w w'),
             embeddings = E0 @ concat (received api w w'),
             metadata = M0 @ take (length (received api w w') * bs) (drop (sb * bs) metas)\<rparr>
      \<and> (sb + length (received api w w')) * bs < length texts)"
proof -
  let ?is = "py_range (sb * bs) (length texts) bs"
  let ?sl = "\<lambda>i. slice metas i bs"
  have a: "process_batch api texts metas bs i acc w = (Inr acc', w') \<and> (i div bs) mod 5 = 0 \<longrightarrow>
      checkpoint_file w'
        = Some \<lparr>batch_index = i div bs, embeddings = fst acc', metadata = snd acc'\<rparr>
      \<and> (\<exists>body. fst acc' = fst acc @ body) \<and> snd acc' = snd acc @ slice metas i bs"
    using process_batch_success [of api texts metas bs i acc w acc' w'] by auto
  have b: "process_batch api texts metas bs i acc w = (Inl e, w') \<longrightarrow>
      checkpoint_file w'
        = Some \<lparr>batch_index = i div bs, embeddings = fst acc, metadata = snd acc\<rparr>
      \<and> last (trace w')
        = SaveCheckpoint \<lparr>batch_index = i div bs, embeddings = fst acc, metadata = snd acc\<rparr>"
    using process_batch_failure [of api texts metas bs i acc w e w'] by blast
  have c: "0 < bs \<and> load_checkpoint w = (sb, E0, M0)
      \<and> generate_embeddings api texts metas bs w = (Inr r, w') \<longrightarrow>
      r = (E0 @ concat (received api w w'),
           M0 @ take (length (received api w w') * bs) (drop (sb * bs) metas))
      \<and> (\<forall>k. sb \<le> k \<and> k * bs < length texts \<and> k mod 5 = 0 \<longrightarrow>
            SaveCheckpoint
              \<lparr>batch_index = k,
               embeddings = E0 @ concat (take (Suc (k - sb)) (received api w w')),
               metadata = M0 @ take (Suc (k - sb) * bs) (drop (sb * bs) metas)\<rparr>
            \<in> set (new_events w w'))"
  proof (intro impI, elim conjE)
    assume bs: "0 < bs" and l: "load_checkpoint w = (sb, E0, M0)"
      and run: "generate_embeddings api texts metas bs w = (Inr r, w')"
    from run bs l have "batch_loop api texts metas bs ?is (E0, M0) w = (Inr r, w')"
      by (simp add: generate_embeddings_def)
    from batch_loop_received_ok [OF this] obtain ps more where
      m: "posted (trace w') = posted (trace w) @ ps" "trace w' = trace w @ more"
      and len: "length (good_bodies api (calls w) ps) = length ?is"
      and res: "r = (fst (E0, M0) @ concat (good_bodies api (calls w) ps),
                     snd (E0, M0) @ concat (map ?sl ?is))"
      and sv: "\<forall>p < length ?is. (?is ! p div bs) mod 5 = 0 \<longrightarrow>
           SaveCheckpoint
             \<lparr>batch_index = ?is ! p div bs,
              embeddings = fst (E0, M0) @ concat (take (Suc p) (good_bodies api (calls w) ps)),
              metadata = snd (E0, M0) @ concat (map ?sl (take (Suc p) ?is))\<rparr>
           \<in> set more"
      by (elim exE conjE)
    have rc: "received api w w' = good_bodies api (calls w) ps"
      by (simp add: received_def new_requests_def m(1))
    have ev: "new_events w w' = more"
      by (simp add: new_events_def m(2))
    have "concat (map ?sl (take (length ?is) ?is)) = take (length ?is * bs) (drop (sb * bs) metas)"
      by (rule concat_slices_take [OF bs]) simp
    then have whole: "concat (map ?sl ?is) = take (length ?is * bs) (drop (sb * bs) metas)"
      by simp
    have r1: "r = (E0 @ concat (received api w w'),
           M0 @ take (length (received api w w') * bs) (drop (sb * bs) metas))"
      unfolding rc len using res whole by simp
    have r2: "\<forall>k. sb \<le> k \<and> k * bs < length texts \<and> k mod 5 = 0 \<longrightarrow>
            SaveCheckpoint
              \<lparr>batch_index = k,
               embeddings = E0 @ concat (take (Suc (k - sb)) (received api w w')),
               metadata = M0 @ take (Suc (k - sb) * bs) (drop (sb * bs) metas)\<rparr>
            \<in> set (new_events w w')"
    proof (intro allI impI, elim conjE)
      fix k assume k: "sb \<le> k" "k * bs < length texts" "k mod 5 = 0"
      from k(1) have e: "sb * bs + (k - sb) * bs = k * bs"
        by (simp add: algebra_simps flip: add_mult_distrib)
      with k(2) have p: "k - sb < length ?is"
        using py_range_length_iff [OF bs, of "k - sb" "sb * bs" "length texts"] by simp
      then have n: "?is ! (k - sb) = k * bs"
        using py_range_nth [OF p] e by simp
      with bs have d: "?is ! (k - sb) div bs = k" by simp
      from d k(3) have md: "(?is ! (k - sb) div bs) mod 5 = 0" by simp
      from p have "Suc (k - sb) \<le> length ?is" by simp
      from concat_slices_take [OF bs this, of metas]
      have sl: "concat (map ?sl (take (Suc (k - sb)) ?is))
          = take (Suc (k - sb) * bs) (drop (sb * bs) metas)" .
      from sv [rule_format, OF p md]
      show "SaveCheckpoint
              \<lparr>batch_index = k,
               embeddings = E0 @ concat (take (Suc (k - sb)) (received api w w')),
               metadata = M0 @ take (Suc (k - sb) * bs) (drop (sb * bs) metas)\<rparr>
            \<in> set (new_events w w')"
        unfolding rc ev d sl by simp
    qed
    from r1 r2 show "r = (E0 @ concat (received api w w'),
           M0 @ take (length (received api w w') * bs) (drop (sb * bs) metas))
      \<and> (\<forall>k. sb \<le> k \<and> k * bs < length texts \<and> k mod 5 = 0 \<longrightarrow>
            SaveCheckpoint
              \<lparr>batch_index = k,
               embeddings = E0 @ concat (take (Suc (k - sb)) (received api w w')),
               metadata = M0 @ take (Suc (k - sb) * bs) (drop (sb * bs) metas)\<rparr>
            \<in> set (new_events w w'))"
      by (rule conjI)
  qed
  have d: "0 < bs \<and> load_checkpoint w = (sb, E0, M0)
      \<and> generate_embeddings api texts metas bs w = (Inl e, w') \<longrightarrow>
      checkpoint_file w'
        = Some \<lparr>batch_index = sb + length (received api w w'),
                embeddings = E0 @ concat (received api w w'),
                metadata = M0 @ take (length (received api w w') * bs) (drop (sb * bs) metas)\<rparr>
      \<and> last (trace w')
        = SaveCheckpoint
            \<lparr>batch_index = sb + length (received api w w'),
             embeddings = E0 @ concat (received api w w'),
             metadata = M0 @ take (length (received api w w') * bs) (drop (sb * bs) metas)\<rparr>
      \<and> (sb + length (received api w w')) * bs < length texts"
  proof (intro impI, elim conjE)
    assume bs: "0 < bs" and l: "load_checkpoint w = (sb, E0, M0)"
      and run: "generate_embeddings api texts metas bs w = (Inl e, w')"
    from run bs l have "batch_loop api texts metas bs ?is (E0, M0) w = (Inl e, w')"
      by (simp add: generate_embeddings_def)
    from batch_loop_received_failed [OF this] obtain ps more where
      m: "posted (trace w') = posted (trace w) @ ps" "trace w' = trace w @ more"
      and len: "length (good_bodies api (calls w) ps) < length ?is"
      and ne: "more \<noteq> []"
      and la: "last more = SaveCheckpoint
          \<lparr>batch_index = ?is ! length (good_bodies api (calls w) ps) div bs,
           embeddings = fst (E0, M0) @ concat (good_bodies api (calls w) ps),
           metadata = snd (E0, M0) @ concat (map ?sl
                        (take (length (good_bodies api (calls w) ps)) ?is))\<rparr>"
      and cf: "checkpoint_file w' = Some
          \<lparr>batch_index = ?is ! length (good_bodies api (calls w) ps) div bs,
           embeddings = fst (E0, M0) @ concat (good_bodies api (calls w) ps),
           metadata = snd (E0, M0) @ concat (map ?sl
                        (take (length (good_bodies api (calls w) ps)) ?is))\<rparr>"
      by (elim exE conjE)
    let ?j = "length (good_bodies api (calls w) ps)"
    have rc: "received api w w' = good_bodies api (calls w) ps"
      by (simp add: received_def new_requests_def m(1))
    from len have lt: "sb * bs + ?j * bs < length texts"
      using py_range_length_iff [OF bs, of ?j "sb * bs" "length texts"] by simp
    then have lt': "(sb + ?j) * bs < length texts"
      by (simp add: add_mult_distrib)
    have "?is ! ?j = (sb + ?j) * bs"
      using py_range_nth [OF len] by (simp add: add_mult_distrib)
    with bs have dv: "?is ! ?j div bs = sb + ?j" by simp
    from len have "?j \<le> length ?is" by simp
    from concat_slices_take [OF bs this, of metas]
    have sl: "concat (map ?sl (take ?j ?is)) = take (?j * bs) (drop (sb * bs) metas)" .
    have la': "last (trace w') = last more"
      using ne by (simp add: m(2))
    show "checkpoint_file w'
        = Some \<lparr>batch_index = sb + length (received api w w'),
                embeddings = E0 @ concat (received api w w'),
                metadata = M0 @ take (length (received api w w') * bs) (drop (sb * bs) metas)\<rparr>
      \<and> last (trace w')
        = SaveCheckpoint
            \<lparr>batch_index = sb + length (received api w w'),
             embeddings = E0 @ concat (received api w w'),
             metadata = M0 @ take (length (received api w w') * bs) (drop (sb * bs) metas)\<rparr>
      \<and> (sb + length (received api w w')) * bs < length texts"
      unfolding rc la' using cf la lt' unfolding dv sl by simp
  qed
  show ?thesis
    by (rule conjI [OF a conjI [OF b conjI [OF c d]]])
qed


theorem checkpoint_persisted_witness:
  "checkpoint_file
     (snd (generate_embeddings flaky_api [''a'', ''b'', ''c''] [10, 20, 30] 2 fresh_world))
   = Some \<lparr>batch_index = 1, embeddings = [1, 2], metadata = [10, 20]\<rparr>"
proof -
  let ?G = "generate_embeddings flaky_api [''a'', ''b'', ''c''] [10, 20, 30 :: nat] 2 fresh_world"
  have r: "py_range 0 (Suc (Suc (Suc 0))) 2 = [0, 2]"
    by (simp add: py_range_def upt_conv_Cons)
  have run: "?G
      = (Inl ConnectionError,
         \<lparr>calls = 6,
          trace = [Post [''a'', ''b''],
                   SaveCheckpoint \<lparr>batch_index = 0, embeddings = [1, 2], metadata = [10, 20]\<rparr>,
                   Sleep 1,
                   Post [''c''], Sleep 10, Post [''c''], Sleep 20, Post [''c''], Sleep 30,
                   Post [''c''], Sleep 40, Post [''c''],
                   SaveCheckpoint \<lparr>batch_index = 1, embeddings = [1, 2], metadata = [10, 20]\<rparr>],
          checkpoint_file
            = Some \<lparr>batch_index = 1, embeddings = [1, 2], metadata = [10, 20]\<rparr>\<rparr>)"
    by (simp add: generate_embeddings_def load_checkpoint_def fresh_world_def r process_batch_def
        make_api_request_def flaky_api_def slice_def upt_conv_Cons Let_def save_checkpoint_def
        sleep_def post_def)
  have l: "load_checkpoint fresh_world = (0, [], [] :: nat list)"
    by (simp add: load_checkpoint_def fresh_world_def)
  have g: "?G = (Inl ConnectionError, snd ?G)"
    by (simp add: run)
  have rc: "received flaky_api fresh_world (snd ?G) = [[1, 2]]"
    unfolding run by (simp add: received_def new_requests_def fresh_world_def flaky_api_def)
  have "(0::nat) < 2" by simp
  with l g checkpoint_persisted
    [where api = flaky_api and texts = "[''a'', ''b'', ''c'']" and metas = "[10, 20, 30]"
       and bs = 2 and w = fresh_world and w' = "snd ?G" and e = ConnectionError
       and sb = 0 and ?E0.0 = "[]" and ?M0.0 = "[]",
     THEN conjunct2, THEN conjunct2, THEN conjunct2]
  have "checkpoint_file (snd ?G)
        = Some \<lparr>batch_index = 0 + length (received flaky_api fresh_world (snd ?G)),
                embeddings = [] @ concat (received flaky_api fresh_world (snd ?G)),
                metadata = [] @ take (length (received flaky_api fresh_world (snd ?G)) * 2)
                                  (drop (0 * 2) [10, 20, 30])\<rparr>"
    by blast
  then show ?thesis
    unfolding rc by simp
qed

end
